theory Spec2Isabelle
  imports Main "HOL-Library.AList"
begin

section \<open>Values, errors and the store\<close>

text \<open>
  Python data as descriptors, parsers and callers hand it over: a default, an
  argument, the result of a parser. Data is plain: a list of this type is the
  sequence of its elements. The lists that flags hold are objects and live in a
  store (see below).
\<close>

datatype pyval =
    PNone
  | PBool bool
  | PInt int
  | PStr string
  | PBytes string
  | PList "pyval list"
  | PTuple "pyval list"

text \<open>Every exception of the source is a value of this type.\<close>

datatype error =
    ValueError string
  | TypeError string
  | KeyError string
  | IndexError
  | AttributeError string
  | IllegalFlagValueError string
  | DuplicateFlagError string
  | UnrecognizedFlagError string
  | FlagsError string

text \<open>
  Dictionaries and lists are mutable objects that several flags can hold a
  reference to: \<open>_update_shared_dict\<close> stores into a dictionary in place and
  \<open>MultiFlag.parse\<close> extends the list of a flag in place. They live in two
  explicit stores, one of dictionaries and one of lists; an address is an index
  into a store. What a variable, an attribute or a slot of a dictionary holds is
  an \<open>entry\<close>: plain data, a reference to a list, or a reference to a
  dictionary. A dictionary is an insertion-ordered association list with one
  entry per key (\<open>d[k] = v\<close> is \<^const>\<open>AList.update\<close>: it replaces in
  place or appends).
\<close>

type_synonym addr = nat

datatype entry = Val pyval | ListRef addr | Ref addr

type_synonym dictobj = "(string \<times> entry) list"

type_synonym heap = "dictobj list"

type_synonym liststore = "pyval list list"

text \<open>
  A list that a parser returned or that a caller wrote down becomes a new object
  of the store of lists; any other data is held as it is. The elements of a list
  stay plain data: no operation of the code changes an element in place.
\<close>

definition new_value :: "liststore \<Rightarrow> pyval \<Rightarrow> entry \<times> liststore" where
  "new_value ls v =
     (case v of
        PList xs \<Rightarrow> (ListRef (length ls), ls @ [xs])
      | _ \<Rightarrow> (Val v, ls))"

text \<open>The data that an entry stands for: a list reference stands for the list
  that the store holds for it now.\<close>

definition read_value :: "liststore \<Rightarrow> entry \<Rightarrow> pyval option" where
  "read_value ls e =
     (case e of
        Val v \<Rightarrow> Some v
      | ListRef l \<Rightarrow> (if l < length ls then Some (PList (ls ! l)) else None)
      | Ref a \<Rightarrow> None)"

text \<open>\<open>d[name]\<close> for an arbitrary object \<open>d\<close>: only a dictionary can be
  subscripted by a string, and a missing key raises \<open>KeyError\<close>. A reference
  in Python always refers to a live object; for an address outside the store the
  model answers \<open>KeyError\<close> as well.\<close>

definition subscript :: "heap \<Rightarrow> entry \<Rightarrow> string \<Rightarrow> error + entry" where
  "subscript h d k =
     (case d of
        Val v \<Rightarrow> Inl (TypeError ''object is not subscriptable'')
      | ListRef l \<Rightarrow> Inl (TypeError ''list indices must be integers or slices, not str'')
      | Ref a \<Rightarrow>
          (if a < length h
           then (case map_of (h ! a) k of None \<Rightarrow> Inl (KeyError k) | Some e \<Rightarrow> Inr e)
           else Inl (KeyError k)))"

text \<open>\<open>d[key] = value\<close>.\<close>

definition setitem :: "heap \<Rightarrow> entry \<Rightarrow> string \<Rightarrow> entry \<Rightarrow> error + heap" where
  "setitem h d k x =
     (case d of
        Val v \<Rightarrow> Inl (TypeError ''object does not support item assignment'')
      | ListRef l \<Rightarrow> Inl (TypeError ''list indices must be integers or slices, not str'')
      | Ref a \<Rightarrow>
          (if a < length h then Inr (h[a := AList.update k x (h ! a)])
           else Inl (KeyError k)))"

section \<open>The write-through update\<close>

text \<open>
  \<^verbatim>\<open>
  def _update_shared_dict(self):
    d = self._shared_dict
    for name in self._namespace[:-1]:
      d = d[name]
    d[self._namespace[-1]] = self.value
  \<close>
  The loop is \<open>descend\<close>; \<open>lookups\<close> counts the subscript operations the
  loop performs (up to and including a failing one).
\<close>

fun descend :: "heap \<Rightarrow> entry \<Rightarrow> string list \<Rightarrow> error + entry" where
  "descend h d [] = Inr d"
| "descend h d (n # ns) =
     (case subscript h d n of Inl e \<Rightarrow> Inl e | Inr d' \<Rightarrow> descend h d' ns)"

fun lookups :: "heap \<Rightarrow> entry \<Rightarrow> string list \<Rightarrow> nat" where
  "lookups h d [] = 0"
| "lookups h d (n # ns) =
     (case subscript h d n of Inl e \<Rightarrow> 1 | Inr d' \<Rightarrow> Suc (lookups h d' ns))"

definition update_shared_dict :: "heap \<Rightarrow> addr \<Rightarrow> string list \<Rightarrow> entry \<Rightarrow> error + heap" where
  "update_shared_dict h shared_dict namespace v =
     (case descend h (Ref shared_dict) (butlast namespace) of
        Inl e \<Rightarrow> Inl e
      | Inr d \<Rightarrow>
          (if namespace = [] then Inl IndexError
           else setitem h d (last namespace) v))"

section \<open>Leaf option descriptors\<close>

text \<open>
  A parser is the \<open>parse\<close> method of a \<open>flags.ArgumentParser\<close>: it maps an
  argument (a command-line string or an already typed value) to a value or
  raises. Serializers play no part in the properties below and are left out.
\<close>

type_synonym parser = "pyval \<Rightarrow> error + pyval"

record item =
  default :: pyval
  help_string :: string
  parser :: parser

definition Item_init :: "pyval \<Rightarrow> string \<Rightarrow> parser \<Rightarrow> error + item" where
  "Item_init dflt help p =
     (if dflt = PNone
      then Inr \<lparr>default = dflt, help_string = help, parser = p\<rparr>
      else (case p dflt of
              Inl e \<Rightarrow> Inl e
            | Inr v \<Rightarrow> Inr \<lparr>default = v, help_string = help, parser = p\<rparr>))"

text \<open>\<open>[parser.parse(item) for item in default]\<close>: the first failure is raised.\<close>

fun parse_each :: "parser \<Rightarrow> pyval list \<Rightarrow> error + pyval list" where
  "parse_each p [] = Inr []"
| "parse_each p (x # xs) =
     (case p x of
        Inl e \<Rightarrow> Inl e
      | Inr v \<Rightarrow> (case parse_each p xs of Inl e \<Rightarrow> Inl e | Inr vs \<Rightarrow> Inr (v # vs)))"

text \<open>\<open>isinstance(x, collections.abc.Iterable)\<close>, \<open>isinstance(x, (str, bytes))\<close>,
  \<open>isinstance(x, list)\<close> and \<open>list(x)\<close> on the modelled values. Iterating
  over bytes yields the integer of each byte.\<close>

fun is_iterable :: "pyval \<Rightarrow> bool" where
  "is_iterable (PStr s) = True"
| "is_iterable (PBytes s) = True"
| "is_iterable (PList xs) = True"
| "is_iterable (PTuple xs) = True"
| "is_iterable _ = False"

fun is_str_or_bytes :: "pyval \<Rightarrow> bool" where
  "is_str_or_bytes (PStr s) = True"
| "is_str_or_bytes (PBytes s) = True"
| "is_str_or_bytes _ = False"

fun is_str :: "pyval \<Rightarrow> bool" where
  "is_str (PStr s) = True"
| "is_str _ = False"

fun is_list :: "pyval \<Rightarrow> bool" where
  "is_list (PList xs) = True"
| "is_list _ = False"

fun list_of :: "pyval \<Rightarrow> pyval list" where
  "list_of (PList xs) = xs"
| "list_of (PTuple xs) = xs"
| "list_of (PStr s) = map (\<lambda>c. PStr [c]) s"
| "list_of (PBytes s) = map (\<lambda>c. PInt (of_char c)) s"
| "list_of _ = []"

definition MultiItem_init :: "pyval \<Rightarrow> string \<Rightarrow> parser \<Rightarrow> error + item" where
  "MultiItem_init dflt help p =
     (if dflt = PNone
      then Inr \<lparr>default = dflt, help_string = help, parser = p\<rparr>
      else
        (let d1 = (if is_iterable dflt \<and> \<not> is_str_or_bytes dflt
                   then PList (list_of dflt) else dflt);
             d2 = (if \<not> is_list d1 then PList [d1] else d1)
         in (case parse_each p (list_of d2) of
               Inl e \<Rightarrow> Inl e
             | Inr vs \<Rightarrow> Inr \<lparr>default = PList vs, help_string = help, parser = p\<rparr>)))"

section \<open>The aggregate dict flag\<close>

definition EMPTY :: string where
  "EMPTY = ''''"

definition dict_override_message :: string where
  "dict_override_message =
     ''Can't override a dict flag directly. Did you mean to override one of its `Item`s instead?''"

text \<open>
  \<^verbatim>\<open>
  def _parse(self, value):
    if value is self._shared_dict or value == _EMPTY:
      return self._shared_dict
    raise flags.IllegalFlagValueError(...)
  \<close>
  \<open>is\<close> compares identities: two dictionary references are identical when
  their addresses are equal.
\<close>

definition DictFlag__parse :: "addr \<Rightarrow> entry \<Rightarrow> error + entry" where
  "DictFlag__parse shared_dict v =
     (if v = Ref shared_dict \<or> v = Val (PStr EMPTY) then Inr (Ref shared_dict)
      else Inl (IllegalFlagValueError dict_override_message))"

section \<open>Definition trees and the shared state builder\<close>

text \<open>
  A definition is a flat or nested \<open>dict\<close> whose values are \<open>Item\<close>s,
  \<open>MultiItem\<close>s, further dicts, or (by mistake) anything else; \<open>DOther\<close>
  carries \<open>type(value).__name__\<close> of such a value. Keys are strings (the
  flag name is \<open>SEPARATOR.join(namespace)\<close>). A Python dict has no repeated
  key: \<open>distinct_keys\<close> says so for the association lists of a definition.
\<close>

datatype defn =
    DItem item
  | DMultiItem item
  | DDict "(string \<times> defn) list"
  | DOther string

fun distinct_keys :: "defn \<Rightarrow> bool" where
  "distinct_keys (DDict m) = (distinct (map fst m) \<and> list_all (\<lambda>kv. distinct_keys (snd kv)) m)"
| "distinct_keys _ = True"

definition extract_message :: "string \<Rightarrow> string" where
  "extract_message type_name =
     ''DEFINE_dict only supports flat or nested dictionaries, '' @
     ''and these must contain `ff.Item`s or `ff.MultiItems. '' @
     ''Found type '' @ type_name @ '' in this definition.''"

text \<open>
  \<^verbatim>\<open>
  def _extract_defaults(mapping):
    result = {}
    for key, value in mapping.items():
      if isinstance(value, (Item, MultiItem)):
        result[key] = value.default
      elif isinstance(value, dict):
        result[key] = _extract_defaults(value)
      else:
        type_name = type(value).__name__
        raise TypeError(...)
    return result
  \<close>
  \<open>result = {}\<close> allocates a new dictionary; \<open>extract_items\<close> is the loop,
  which stores into that dictionary in place. The default of a descriptor is
  stored as the plain data that the descriptor holds: no flag refers to it, and
  the constructor of the leaf's flag replaces it by the value of the flag.
\<close>

fun extract_defaults :: "heap \<Rightarrow> (string \<times> defn) list \<Rightarrow> error + (addr \<times> heap)"
  and extract_items :: "heap \<Rightarrow> addr \<Rightarrow> (string \<times> defn) list \<Rightarrow> error + heap"
where
  "extract_defaults h mapping =
     (case extract_items (h @ [[]]) (length h) mapping of
        Inl e \<Rightarrow> Inl e
      | Inr h' \<Rightarrow> Inr (length h, h'))"
| "extract_items h result [] = Inr h"
| "extract_items h result ((key, DItem it) # rest) =
     extract_items (h[result := AList.update key (Val (default it)) (h ! result)]) result rest"
| "extract_items h result ((key, DMultiItem it) # rest) =
     extract_items (h[result := AList.update key (Val (default it)) (h ! result)]) result rest"
| "extract_items h result ((key, DDict m) # rest) =
     (case extract_defaults h m of
        Inl e \<Rightarrow> Inl e
      | Inr (a, h1) \<Rightarrow>
          extract_items (h1[result := AList.update key (Ref a) (h1 ! result)]) result rest)"
| "extract_items h result ((key, DOther type_name) # rest) =
     Inl (TypeError (extract_message type_name))"

section \<open>The option library: base flags and the registry\<close>

text \<open>
  Modelled from the spec: the classes \<open>flags.Flag\<close>, \<open>flags.MultiFlag\<close> and
  \<open>flags.FlagValues\<close> belong to the option library (absl), an external
  collaborator whose code is not part of this repository (spec, sections 4.3 and
  6). What the adapters inherit from them is modelled here, as the library does
  it and as the comment in \<open>Item.__init__\<close> recalls it (\<open>Flags run the
  following lines of parsing code during initialization. See Flag._set_default\<close>):
  \<^item> \<open>Flag._parse\<close> calls the parser and recasts a \<open>TypeError\<close> or
    \<open>ValueError\<close> of the parser as \<open>IllegalFlagValueError\<close>;
  \<^item> \<open>MultiFlag._parse\<close> turns a non-string iterable into a list, wraps any
    other value into a one-element list, and parses each element into a new list;
  \<^item> \<open>Flag.__init__\<close> keeps the default \<open>None\<close> and parses any other
    default (\<open>Flag._set_default\<close>), and assigns it to \<open>self.value\<close>;
  \<^item> \<open>Flag.parse\<close> assigns the parsed argument to \<open>self.value\<close> and
    increments \<open>present\<close>; \<open>MultiFlag.parse\<close> assigns the parsed list on
    the first occurrence and afterwards extends the list that the flag holds, in
    place (\<open>self.value.extend(new_values)\<close>);
  \<^item> registering a flag under an empty name or a name with a space raises
    \<open>flags.Error\<close>, and under a name that is taken \<open>DuplicateFlagError\<close>. A
    name that is the name of a method of \<open>FlagValues\<close> is refused as well; the
    model has no such names (the name of a leaf flag contains the separator,
    which no method name does).
\<close>

definition Flag__parse :: "parser \<Rightarrow> pyval \<Rightarrow> error + pyval" where
  "Flag__parse p argument =
     (case p argument of
        Inl (TypeError m) \<Rightarrow> Inl (IllegalFlagValueError m)
      | Inl (ValueError m) \<Rightarrow> Inl (IllegalFlagValueError m)
      | Inl e \<Rightarrow> Inl e
      | Inr v \<Rightarrow> Inr v)"

definition MultiFlag__parse :: "parser \<Rightarrow> pyval \<Rightarrow> error + pyval list" where
  "MultiFlag__parse p arguments =
     (let a1 = (if is_iterable arguments \<and> \<not> is_str arguments
                then PList (list_of arguments) else arguments);
          a2 = (if \<not> is_list a1 then PList [a1] else a1)
      in parse_each (Flag__parse p) (list_of a2))"

record leaf_flag =
  f_shared_dict :: addr
  f_namespace :: "string list"
  f_name :: string
  f_parser :: parser
  f_default :: entry
  f_value :: entry
  f_present :: nat

record dict_flag =
  d_shared_dict :: addr
  d_name :: string
  d_default :: entry
  d_value :: entry
  d_present :: nat

datatype flag = ItemFlag leaf_flag | MultiFlag leaf_flag | DictFlag dict_flag

fun name_of :: "flag \<Rightarrow> string" where
  "name_of (ItemFlag f) = f_name f"
| "name_of (MultiFlag f) = f_name f"
| "name_of (DictFlag d) = d_name d"

text \<open>
  The state of the program: the store of dictionaries, the store of lists and the
  \<open>FlagValues\<close> instances (registries), each a map from flag names to flag
  objects. Instance
  \<open>FLAGS\<close> is the global \<open>flags.FLAGS\<close>. A raised exception leaves the
  state as it is at that point, so every operation on the state returns the
  state next to its result.
\<close>

type_synonym fvid = nat

record state =
  heap :: heap
  lists :: liststore
  registries :: "fvid \<Rightarrow> string \<Rightarrow> flag option"

definition FLAGS :: fvid where
  "FLAGS = 0"

definition init_state :: state where
  "init_state = \<lparr>heap = [], lists = [], registries = (\<lambda>fv name. None)\<rparr>"

definition register :: "state \<Rightarrow> fvid \<Rightarrow> string \<Rightarrow> flag \<Rightarrow> state" where
  "register st fv name fl =
     st\<lparr>registries := (registries st)(fv := (registries st fv)(name \<mapsto> fl))\<rparr>"

definition DEFINE_flag :: "state \<Rightarrow> fvid \<Rightarrow> flag \<Rightarrow> (error + unit) \<times> state" where
  "DEFINE_flag st fv fl =
     (if name_of fl = [] then (Inl (FlagsError ''Flag name cannot be empty''), st)
      else if CHR '' '' \<in> set (name_of fl)
      then (Inl (FlagsError ''Flag name cannot contain a space''), st)
      else if registries st fv (name_of fl) \<noteq> None
      then (Inl (DuplicateFlagError (name_of fl)), st)
      else (Inr (), register st fv (name_of fl) fl))"

section \<open>The write-through adapters\<close>

text \<open>
  \<open>_ItemFlag\<close> and \<open>_MultiFlag\<close> override the \<open>value\<close> setter with the same
  text: store the attribute, then \<open>_update_shared_dict\<close>. When the update
  raises, the attribute has already been stored.
\<close>

definition set_value :: "heap \<Rightarrow> leaf_flag \<Rightarrow> entry \<Rightarrow> (error + unit) \<times> leaf_flag \<times> heap" where
  "set_value h f v =
     (let f' = f\<lparr>f_value := v\<rparr> in
      case update_shared_dict h (f_shared_dict f') (f_namespace f') (f_value f') of
        Inl e \<Rightarrow> (Inl e, f', h)
      | Inr h' \<Rightarrow> (Inr (), f', h'))"

text \<open>
  The constructors. \<open>Flag.__init__\<close> stores the attributes and ends with
  \<open>Flag._set_default\<close>, which parses the default and assigns it to
  \<open>self.default\<close> and, through the setter above, to \<open>self.value\<close>. A list
  that the parser of an \<open>_ItemFlag\<close> returns is taken as a new object; the
  list of a \<open>_MultiFlag\<close> is the new list that \<open>MultiFlag._parse\<close> builds.
\<close>

definition new_flag :: "addr \<Rightarrow> string list \<Rightarrow> parser \<Rightarrow> string \<Rightarrow> entry \<Rightarrow> leaf_flag" where
  "new_flag shared_dict namespace p name dflt =
     \<lparr>f_shared_dict = shared_dict, f_namespace = namespace, f_name = name,
      f_parser = p, f_default = dflt, f_value = Val PNone, f_present = 0\<rparr>"

definition ItemFlag_init ::
  "heap \<Rightarrow> liststore \<Rightarrow> addr \<Rightarrow> string list \<Rightarrow> parser \<Rightarrow> string \<Rightarrow> pyval
     \<Rightarrow> error + (leaf_flag \<times> heap \<times> liststore)" where
  "ItemFlag_init h ls shared_dict namespace p name dflt =
     (case (if dflt = PNone then Inr PNone else Flag__parse p dflt) of
        Inl e \<Rightarrow> Inl e
      | Inr v \<Rightarrow>
          (case new_value ls v of
             (d, ls') \<Rightarrow>
               (case set_value h (new_flag shared_dict namespace p name d) d of
                  (Inl e, f, h') \<Rightarrow> Inl e
                | (Inr u, f, h') \<Rightarrow> Inr (f, h', ls'))))"

definition MultiFlag_init ::
  "heap \<Rightarrow> liststore \<Rightarrow> addr \<Rightarrow> string list \<Rightarrow> parser \<Rightarrow> string \<Rightarrow> pyval
     \<Rightarrow> error + (leaf_flag \<times> heap \<times> liststore)" where
  "MultiFlag_init h ls shared_dict namespace p name dflt =
     (case (if dflt = PNone then Inr (Val PNone, ls)
            else (case MultiFlag__parse p dflt of
                    Inl e \<Rightarrow> Inl e
                  | Inr vs \<Rightarrow> Inr (ListRef (length ls), ls @ [vs]))) of
        Inl e \<Rightarrow> Inl e
      | Inr (d, ls') \<Rightarrow>
          (case set_value h (new_flag shared_dict namespace p name d) d of
             (Inl e, f, h') \<Rightarrow> Inl e
           | (Inr u, f, h') \<Rightarrow> Inr (f, h', ls')))"

text \<open>
  \<^verbatim>\<open>
  def parse(self, argument):
    super().parse(argument)
    self._update_shared_dict()
  \<close>
  For an \<open>_ItemFlag\<close>, \<open>super().parse\<close> is \<open>Flag.parse\<close>: it assigns the
  parsed argument through the \<open>value\<close> setter and counts the occurrence.
\<close>

definition ItemFlag_parse ::
  "heap \<Rightarrow> liststore \<Rightarrow> leaf_flag \<Rightarrow> pyval \<Rightarrow> (error + unit) \<times> leaf_flag \<times> heap \<times> liststore" where
  "ItemFlag_parse h ls f argument =
     (case Flag__parse (f_parser f) argument of
        Inl e \<Rightarrow> (Inl e, f, h, ls)
      | Inr v \<Rightarrow>
          (case new_value ls v of
             (x, ls1) \<Rightarrow>
               (case set_value h f x of
                  (Inl e, f1, h1) \<Rightarrow> (Inl e, f1, h1, ls1)
                | (Inr u, f1, h1) \<Rightarrow>
                    (let f2 = f1\<lparr>f_present := f_present f1 + 1\<rparr> in
                     case update_shared_dict h1 (f_shared_dict f2) (f_namespace f2) (f_value f2) of
                       Inl e \<Rightarrow> (Inl e, f2, h1, ls1)
                     | Inr h2 \<Rightarrow> (Inr (), f2, h2, ls1)))))"

text \<open>
  \<open>self.value.extend(new_values)\<close>, the step of \<open>MultiFlag.parse\<close> for a
  flag that is present already: the list that the flag holds is extended in
  place, in the store, so every holder of a reference to it sees the longer
  list; the \<open>value\<close> setter is not called. A value without the method
  \<open>extend\<close> raises \<open>AttributeError\<close>. Every list that a flag holds is an
  object of the store; for a plain list, which nothing else can refer to, the
  flag gets the longer list.
\<close>

definition extend_value ::
  "liststore \<Rightarrow> leaf_flag \<Rightarrow> pyval list \<Rightarrow> error + (leaf_flag \<times> liststore)" where
  "extend_value ls f new_values =
     (case f_value f of
        ListRef l \<Rightarrow>
          (if l < length ls then Inr (f, ls[l := ls ! l @ new_values])
           else Inl (AttributeError ''extend''))
      | Val (PList old) \<Rightarrow> Inr (f\<lparr>f_value := Val (PList (old @ new_values))\<rparr>, ls)
      | _ \<Rightarrow> Inl (AttributeError ''extend''))"

text \<open>
  \<open>_MultiFlag.parse\<close>: \<open>MultiFlag.parse\<close>, then \<open>_update_shared_dict\<close>.
  \<^verbatim>\<open>
  def parse(self, arguments):          # MultiFlag
    new_values = self._parse(arguments)
    if self.present:
      self.value.extend(new_values)
    else:
      self.value = new_values
    self.present += len(new_values)
  \<close>
  On the first occurrence the new list becomes an object of the store and the
  value of the flag.
\<close>

definition MultiFlag_parse ::
  "heap \<Rightarrow> liststore \<Rightarrow> leaf_flag \<Rightarrow> pyval \<Rightarrow> (error + unit) \<times> leaf_flag \<times> heap \<times> liststore" where
  "MultiFlag_parse h ls f argument =
     (case MultiFlag__parse (f_parser f) argument of
        Inl e \<Rightarrow> (Inl e, f, h, ls)
      | Inr new_values \<Rightarrow>
          (case (if f_present f \<noteq> 0
                 then (case extend_value ls f new_values of
                         Inl e \<Rightarrow> (Inl e, f, h, ls)
                       | Inr (f1, ls1) \<Rightarrow> (Inr (), f1, h, ls1))
                 else (case set_value h f (ListRef (length ls)) of
                         (r, f1, h1) \<Rightarrow> (r, f1, h1, ls @ [new_values]))) of
             (Inl e, f1, h1, ls1) \<Rightarrow> (Inl e, f1, h1, ls1)
           | (Inr u, f1, h1, ls1) \<Rightarrow>
               (let f2 = f1\<lparr>f_present := f_present f1 + length new_values\<rparr> in
                case update_shared_dict h1 (f_shared_dict f2) (f_namespace f2) (f_value f2) of
                  Inl e \<Rightarrow> (Inl e, f2, h1, ls1)
                | Inr h2 \<Rightarrow> (Inr (), f2, h2, ls1))))"

definition DictFlag_init :: "addr \<Rightarrow> string \<Rightarrow> entry \<Rightarrow> error + dict_flag" where
  "DictFlag_init shared_dict name dflt =
     (case (if dflt = Val PNone then Inr (Val PNone) else DictFlag__parse shared_dict dflt) of
        Inl e \<Rightarrow> Inl e
      | Inr d \<Rightarrow>
          Inr \<lparr>d_shared_dict = shared_dict, d_name = name, d_default = d, d_value = d,
               d_present = 0\<rparr>)"

definition DictFlag_parse :: "dict_flag \<Rightarrow> entry \<Rightarrow> error + dict_flag" where
  "DictFlag_parse d argument =
     (case DictFlag__parse (d_shared_dict d) argument of
        Inl e \<Rightarrow> Inl e
      | Inr v \<Rightarrow> Inr (d\<lparr>d_value := v, d_present := d_present d + 1\<rparr>))"

section \<open>Defining the flags of a definition\<close>

definition SEPARATOR :: string where
  "SEPARATOR = ''.''"

text \<open>\<open>sep.join(xs)\<close>.\<close>

fun join :: "string \<Rightarrow> string list \<Rightarrow> string" where
  "join sep [] = []"
| "join sep [x] = x"
| "join sep (x # y # ys) = x @ sep @ join sep (y # ys)"

text \<open>
  \<open>Item.define\<close> and \<open>MultiItem.define\<close>: build the adapter (which parses the
  default and writes it through), then register it with \<open>flags.DEFINE_flag\<close>.
\<close>

definition Item_define :: "state \<Rightarrow> item \<Rightarrow> string list \<Rightarrow> addr \<Rightarrow> fvid \<Rightarrow> (error + unit) \<times> state" where
  "Item_define st it namespace shared_dict flag_values =
     (case ItemFlag_init (heap st) (lists st) shared_dict namespace (parser it)
             (join SEPARATOR namespace) (default it) of
        Inl e \<Rightarrow> (Inl e, st)
      | Inr (f, h', ls') \<Rightarrow>
          DEFINE_flag (st\<lparr>heap := h', lists := ls'\<rparr>) flag_values (ItemFlag f))"

definition MultiItem_define :: "state \<Rightarrow> item \<Rightarrow> string list \<Rightarrow> addr \<Rightarrow> fvid \<Rightarrow> (error + unit) \<times> state" where
  "MultiItem_define st it namespace shared_dict flag_values =
     (case MultiFlag_init (heap st) (lists st) shared_dict namespace (parser it)
             (join SEPARATOR namespace) (default it) of
        Inl e \<Rightarrow> (Inl e, st)
      | Inr (f, h', ls') \<Rightarrow>
          DEFINE_flag (st\<lparr>heap := h', lists := ls'\<rparr>) flag_values (MultiFlag f))"

text \<open>
  \<^verbatim>\<open>
  def recursively_define_flags(namespace, maybe_definition):
    if isinstance(maybe_definition, dict):
      for key, value in maybe_definition.items():
        recursively_define_flags(namespace + (key,), value)
    else:
      maybe_definition.define(namespace, {name: shared_dict}, flag_values)
  \<close>
  Every leaf gets a new one-entry dictionary \<open>{name: shared_dict}\<close> of its own,
  which refers to the one shared dictionary. \<open>define_items\<close> is the loop over
  the items of a dict.
\<close>

fun recursively_define_flags ::
    "string \<Rightarrow> addr \<Rightarrow> fvid \<Rightarrow> state \<Rightarrow> string list \<Rightarrow> defn \<Rightarrow> (error + unit) \<times> state"
  and define_items ::
    "string \<Rightarrow> addr \<Rightarrow> fvid \<Rightarrow> state \<Rightarrow> string list \<Rightarrow> (string \<times> defn) list \<Rightarrow> (error + unit) \<times> state"
where
  "recursively_define_flags name shared_dict fv st namespace (DDict m) =
     define_items name shared_dict fv st namespace m"
| "recursively_define_flags name shared_dict fv st namespace (DItem it) =
     Item_define (st\<lparr>heap := heap st @ [[(name, Ref shared_dict)]]\<rparr>) it namespace
       (length (heap st)) fv"
| "recursively_define_flags name shared_dict fv st namespace (DMultiItem it) =
     MultiItem_define (st\<lparr>heap := heap st @ [[(name, Ref shared_dict)]]\<rparr>) it namespace
       (length (heap st)) fv"
| "recursively_define_flags name shared_dict fv st namespace (DOther type_name) =
     (Inl (AttributeError ''define''), st)"
| "define_items name shared_dict fv st namespace [] = (Inr (), st)"
| "define_items name shared_dict fv st namespace ((key, v) # rest) =
     (case recursively_define_flags name shared_dict fv st (namespace @ [key]) v of
        (Inl e, st') \<Rightarrow> (Inl e, st')
      | (Inr u, st') \<Rightarrow> define_items name shared_dict fv st' namespace rest)"

text \<open>
  \<^verbatim>\<open>
  def define_flags(name, deferred_flags, flag_values=flags.FLAGS):
    shared_dict = _extract_defaults(deferred_flags)
    ...
    for key, value in deferred_flags.items():
      recursively_define_flags(namespace=(name, key), maybe_definition=value)
    return shared_dict
  \<close>
\<close>

definition define_flags :: "state \<Rightarrow> string \<Rightarrow> (string \<times> defn) list \<Rightarrow> fvid \<Rightarrow> (error + addr) \<times> state" where
  "define_flags st name deferred_flags flag_values =
     (case extract_defaults (heap st) deferred_flags of
        Inl e \<Rightarrow> (Inl e, st)
      | Inr (shared_dict, h') \<Rightarrow>
          (case define_items name shared_dict flag_values (st\<lparr>heap := h'\<rparr>) [name]
                  deferred_flags of
             (Inl e, st') \<Rightarrow> (Inl e, st')
           | (Inr u, st') \<Rightarrow> (Inr shared_dict, st')))"

text \<open>
  The positional arguments of \<open>DEFINE_dict\<close>: a string, a \<open>FlagValues\<close>
  instance, or a value of another type (with \<open>type(x).__name__\<close>).
\<close>

datatype arg = ArgStr string | ArgFlagValues fvid | ArgOther string

fun type_name_of :: "arg \<Rightarrow> string" where
  "type_name_of (ArgStr s) = ''str''"
| "type_name_of (ArgFlagValues fv) = ''FlagValues''"
| "type_name_of (ArgOther t) = t"

definition no_name_message :: string where
  "no_name_message =
     ''Please supply one positional argument containing the '' @
     ''top-level flag name for the dict.''"

definition no_kwargs_message :: string where
  "no_kwargs_message =
     ''Please supply at least one keyword argument defining a flag.''"

definition too_many_args_message :: string where
  "too_many_args_message =
     ''Please supply at most two positional arguments, the '' @
     ''first containing the top-level flag name for the dict '' @
     ''and, optionally and unusually, a second positional '' @
     ''argument to override the flags.FlagValues instance to '' @
     ''use.''"

definition name_type_message :: "string \<Rightarrow> string" where
  "name_type_message t =
     ''The first positional argument must be a string '' @
     ''containing top-level flag name for the dict. Got a '' @ t @ ''.''"

definition flag_values_type_message :: "string \<Rightarrow> string" where
  "flag_values_type_message t =
     ''If supplying a second positional argument, this must '' @
     ''be a flags.FlagValues instance. Got a '' @ t @ ''. If you meant '' @
     ''to define a flag, note these must be supplied as '' @
     ''keyword arguments. ''"

text \<open>
  \<open>DEFINE_dict(*args, **kwargs)\<close>. The result is the \<open>FlagHolder\<close> of the
  aggregate flag: the registry and the name under which the flag is registered.
\<close>

definition DEFINE_dict ::
  "state \<Rightarrow> arg list \<Rightarrow> (string \<times> defn) list \<Rightarrow> (error + (fvid \<times> string)) \<times> state" where
  "DEFINE_dict st args kwargs =
     (if args = [] then (Inl (ValueError no_name_message), st)
      else if kwargs = [] then (Inl (ValueError no_kwargs_message), st)
      else if length args > 2 then (Inl (ValueError too_many_args_message), st)
      else
        (case args ! 0 of
           ArgStr flag_name \<Rightarrow>
             (case (if length args = 2
                    then (case args ! 1 of
                            ArgFlagValues fv \<Rightarrow> Inr fv
                          | a \<Rightarrow> Inl (ValueError (flag_values_type_message (type_name_of a))))
                    else Inr FLAGS) of
                Inl e \<Rightarrow> (Inl e, st)
              | Inr flag_values \<Rightarrow>
                  (case define_flags st flag_name kwargs flag_values of
                     (Inl e, st1) \<Rightarrow> (Inl e, st1)
                   | (Inr shared_dict, st1) \<Rightarrow>
                       (case DictFlag_init shared_dict flag_name (Ref shared_dict) of
                          Inl e \<Rightarrow> (Inl e, st1)
                        | Inr d \<Rightarrow>
                            (case DEFINE_flag st1 flag_values (DictFlag d) of
                               (Inl e, st2) \<Rightarrow> (Inl e, st2)
                             | (Inr u, st2) \<Rightarrow> (Inr (flag_values, flag_name), st2)))))
         | a \<Rightarrow> (Inl (ValueError (name_type_message (type_name_of a))), st)))"

text \<open>
  The value of the flag that a holder names: \<open>flag_values[name].value\<close>, which
  is what \<open>holder.value\<close> gives once the command line has been parsed (before
  that, the option library refuses the access with \<open>UnparsedFlagAccessError\<close>;
  the state has no record of that).
\<close>

definition holder_value :: "state \<Rightarrow> fvid \<times> string \<Rightarrow> entry option" where
  "holder_value st holder =
     (case registries st (fst holder) (snd holder) of
        Some (DictFlag d) \<Rightarrow> Some (d_value d)
      | Some (ItemFlag f) \<Rightarrow> Some (f_value f)
      | Some (MultiFlag f) \<Rightarrow> Some (f_value f)
      | None \<Rightarrow> None)"

section \<open>Overrides and assignments\<close>

text \<open>
  What the option library does with the flag registered under a name: a
  command-line override \<open>--name=argument\<close> calls the flag's \<open>parse\<close>, and
  an assignment to \<open>FLAGS[name].value\<close> calls its \<open>value\<close> setter. The flag
  object is mutable, so the registry sees the flag as the call leaves it.
\<close>

definition flag_parse :: "state \<Rightarrow> fvid \<Rightarrow> string \<Rightarrow> pyval \<Rightarrow> (error + unit) \<times> state" where
  "flag_parse st fv name argument =
     (case registries st fv name of
        None \<Rightarrow> (Inl (UnrecognizedFlagError name), st)
      | Some (ItemFlag f) \<Rightarrow>
          (case ItemFlag_parse (heap st) (lists st) f argument of
             (r, f', h', ls') \<Rightarrow>
               (r, register (st\<lparr>heap := h', lists := ls'\<rparr>) fv name (ItemFlag f')))
      | Some (MultiFlag f) \<Rightarrow>
          (case MultiFlag_parse (heap st) (lists st) f argument of
             (r, f', h', ls') \<Rightarrow>
               (r, register (st\<lparr>heap := h', lists := ls'\<rparr>) fv name (MultiFlag f')))
      | Some (DictFlag d) \<Rightarrow>
          (case DictFlag_parse d (Val argument) of
             Inl e \<Rightarrow> (Inl e, st)
           | Inr d' \<Rightarrow> (Inr (), register st fv name (DictFlag d'))))"

text \<open>\<open>flag_values[name].value = x\<close> for an object \<open>x\<close> at hand.\<close>

definition flag_assign :: "state \<Rightarrow> fvid \<Rightarrow> string \<Rightarrow> entry \<Rightarrow> (error + unit) \<times> state" where
  "flag_assign st fv name x =
     (case registries st fv name of
        None \<Rightarrow> (Inl (KeyError name), st)
      | Some (ItemFlag f) \<Rightarrow>
          (case set_value (heap st) f x of
             (r, f', h') \<Rightarrow> (r, register (st\<lparr>heap := h'\<rparr>) fv name (ItemFlag f')))
      | Some (MultiFlag f) \<Rightarrow>
          (case set_value (heap st) f x of
             (r, f', h') \<Rightarrow> (r, register (st\<lparr>heap := h'\<rparr>) fv name (MultiFlag f')))
      | Some (DictFlag d) \<Rightarrow> (Inr (), register st fv name (DictFlag (d\<lparr>d_value := x\<rparr>))))"

text \<open>
  The operations on the flags of a registry after their definition:
  \<^item> \<open>Override name argument\<close>: the command-line override \<open>--name=argument\<close>;
  \<^item> \<open>Assign name v\<close>: \<open>FLAGS[name].value = v\<close> for data \<open>v\<close> that the
    caller wrote down (a list is a new object);
  \<^item> \<open>AssignValueOf name other\<close>: \<open>FLAGS[name].value = FLAGS[other].value\<close>,
    after which both flags hold the same object.
\<close>

datatype flag_op =
    Override string pyval
  | Assign string pyval
  | AssignValueOf string string

fun op_name :: "flag_op \<Rightarrow> string" where
  "op_name (Override n a) = n"
| "op_name (Assign n v) = n"
| "op_name (AssignValueOf n other) = n"

fun apply_op :: "state \<Rightarrow> fvid \<Rightarrow> flag_op \<Rightarrow> (error + unit) \<times> state" where
  "apply_op st fv (Override n a) = flag_parse st fv n a"
| "apply_op st fv (Assign n v) =
     (case new_value (lists st) v of
        (x, ls') \<Rightarrow> flag_assign (st\<lparr>lists := ls'\<rparr>) fv n x)"
| "apply_op st fv (AssignValueOf n other) =
     (case holder_value st (fv, other) of
        None \<Rightarrow> (Inl (KeyError other), st)
      | Some x \<Rightarrow> flag_assign st fv n x)"

text \<open>A sequence of operations; it stops at the first exception.\<close>

fun run_ops :: "state \<Rightarrow> fvid \<Rightarrow> flag_op list \<Rightarrow> (error + unit) \<times> state" where
  "run_ops st fv [] = (Inr (), st)"
| "run_ops st fv (x # xs) =
     (case apply_op st fv x of
        (Inl e, st') \<Rightarrow> (Inl e, st')
      | (Inr u, st') \<Rightarrow> run_ops st' fv xs)"

section \<open>Paths of a definition\<close>

text \<open>The node of a definition tree that a path of keys leads to.\<close>

fun node_at :: "defn \<Rightarrow> string list \<Rightarrow> defn option" where
  "node_at t [] = Some t"
| "node_at (DDict m) (k # p) = (case map_of m k of None \<Rightarrow> None | Some s \<Rightarrow> node_at s p)"
| "node_at t (k # p) = None"

fun is_leaf :: "defn \<Rightarrow> bool" where
  "is_leaf (DItem it) = True"
| "is_leaf (DMultiItem it) = True"
| "is_leaf t = False"

text \<open>The paths to the leaves of a definition, in document order.\<close>

fun leaf_paths :: "defn \<Rightarrow> string list list" where
  "leaf_paths (DItem it) = [[]]"
| "leaf_paths (DMultiItem it) = [[]]"
| "leaf_paths (DDict m) = concat (map (\<lambda>kv. map ((#) (fst kv)) (leaf_paths (snd kv))) m)"
| "leaf_paths (DOther t) = []"

text \<open>The type names of the nodes that are neither a dict nor a descriptor, in
  document order.\<close>

fun bad_types :: "defn \<Rightarrow> string list" where
  "bad_types (DOther t) = [t]"
| "bad_types (DDict m) = concat (map (\<lambda>kv. bad_types (snd kv)) m)"
| "bad_types t = []"

text \<open>
  The exceptions that the parsers of the leaves raise on the defaults of their
  descriptors when the flags are constructed (\<open>Flag._set_default\<close> parses a
  default that is not \<open>None\<close>), in document order.
\<close>

fun default_errors :: "defn \<Rightarrow> error list" where
  "default_errors (DItem it) =
     (if default it = PNone then []
      else (case Flag__parse (parser it) (default it) of Inl e \<Rightarrow> [e] | Inr v \<Rightarrow> []))"
| "default_errors (DMultiItem it) =
     (if default it = PNone then []
      else (case MultiFlag__parse (parser it) (default it) of Inl e \<Rightarrow> [e] | Inr vs \<Rightarrow> []))"
| "default_errors (DDict m) = concat (map (\<lambda>kv. default_errors (snd kv)) m)"
| "default_errors (DOther t) = []"

text \<open>The exceptions of the registration of a flag (\<open>flags.DEFINE_flag\<close>).\<close>

fun registration_error :: "error \<Rightarrow> bool" where
  "registration_error (DuplicateFlagError n) = True"
| "registration_error (FlagsError m) = True"
| "registration_error e = False"

text \<open>
  The normal form of a \<open>MultiItem\<close> default as the specification words it: a
  non-string, non-bytes iterable becomes the list of its elements, any other
  value becomes a one-element list.
\<close>

definition normalize_default :: "pyval \<Rightarrow> pyval list" where
  "normalize_default d = (if is_iterable d \<and> \<not> is_str_or_bytes d then list_of d else [d])"

section \<open>Example parsers and definitions\<close>

text \<open>
  Three parsers to instantiate the theorems with: the library's base
  \<open>ArgumentParser\<close> (strings only, as \<open>ff.String\<close> uses it), a parser of
  integers written in decimal digits, and a user-defined parser that counts up
  from the number it is given. The decimal parser stands for the
  \<open>IntegerParser\<close> of \<open>ff.Integer\<close> in the examples, whose arguments are
  integers and strings of digits; it raises on the signs, blanks and base
  prefixes that \<open>IntegerParser\<close> accepts as well.
\<close>

fun ArgumentParser_parse :: parser where
  "ArgumentParser_parse (PStr s) = Inr (PStr s)"
| "ArgumentParser_parse v = Inl (TypeError ''flag value must be a string'')"

fun digits_value :: "string \<Rightarrow> nat \<Rightarrow> nat option" where
  "digits_value [] acc = Some acc"
| "digits_value (c # cs) acc =
     (if (48::nat) \<le> of_char c \<and> of_char c \<le> (57::nat)
      then digits_value cs (10 * acc + (of_char c - 48))
      else None)"

fun decimal_parse :: parser where
  "decimal_parse (PInt n) = Inr (PInt n)"
| "decimal_parse (PStr s) =
     (case (if s = [] then None else digits_value s 0) of
        None \<Rightarrow> Inl (ValueError ''invalid literal for int()'')
      | Some n \<Rightarrow> Inr (PInt (int n)))"
| "decimal_parse v = Inl (TypeError ''Expect argument to be a string or int'')"

fun successor_parse :: parser where
  "successor_parse (PInt n) = Inr (PInt (n + 1))"
| "successor_parse v = Inl (TypeError ''expected an int'')"

definition String :: "string \<Rightarrow> item" where
  "String s = \<lparr>default = PStr s, help_string = ''Help.'', parser = ArgumentParser_parse\<rparr>"

definition Integer :: "int \<Rightarrow> item" where
  "Integer n = \<lparr>default = PInt n, help_string = ''Help.'', parser = decimal_parse\<rparr>"

definition MultiString :: "string list \<Rightarrow> item" where
  "MultiString xs =
     \<lparr>default = PList (map PStr xs), help_string = ''Help.'', parser = ArgumentParser_parse\<rparr>"

text \<open>The definition of the documentation of \<open>DEFINE_dict\<close>, with a repeatable
  option added.\<close>

definition image_settings :: "(string \<times> defn) list" where
  "image_settings =
     [(''mode'', DItem (String ''pad'')),
      (''sizes'', DDict [(''width'', DItem (Integer 5)), (''height'', DItem (Integer 7))]),
      (''tags'', DMultiItem (MultiString [''a'']))]"


definition image_state :: state where
  "image_state = snd (define_flags init_state ''image_settings'' image_settings FLAGS)"

definition image_dict_state :: state where
  "image_dict_state = snd (DEFINE_dict init_state [ArgStr ''image_settings''] image_settings)"

text \<open>The states after \<open>--image_settings.sizes.height=10\<close>, after
  \<open>--image_settings.tags=x\<close>, and after \<open>--image_settings.tags=x
  --image_settings.tags=y\<close>.\<close>

definition height_state :: state where
  "height_state = snd (flag_parse image_state FLAGS ''image_settings.sizes.height'' (PStr ''10''))"

definition tags_once :: state where
  "tags_once = snd (flag_parse image_state FLAGS ''image_settings.tags'' (PStr ''x''))"

definition tags_twice :: state where
  "tags_twice = snd (flag_parse tags_once FLAGS ''image_settings.tags'' (PStr ''y''))"




section \<open>Flag names and operations of a definition\<close>

text \<open>The names of the flags that \<open>define_flags name m\<close> defines for the leaves
  of \<open>m\<close>.\<close>

definition leaf_names :: "string \<Rightarrow> (string \<times> defn) list \<Rightarrow> string list" where
  "leaf_names name m = map (\<lambda>p. join SEPARATOR (name # p)) (leaf_paths (DDict m))"

text \<open>An operation that hands an object that a flag holds to another holder.\<close>

fun shares_value :: "flag_op \<Rightarrow> bool" where
  "shares_value (AssignValueOf n other) = True"
| "shares_value x = False"

text \<open>The data at a path of the dictionary at \<open>root\<close>.\<close>

definition value_at :: "state \<Rightarrow> addr \<Rightarrow> string list \<Rightarrow> pyval option" where
  "value_at st root p =
     (case descend (heap st) (Ref root) p of
        Inl e \<Rightarrow> None
      | Inr x \<Rightarrow> read_value (lists st) x)"

section \<open>The shape and the leaf values of a shared dictionary\<close>

text \<open>
  The dictionary that an entry of the store refers to has the keys and the
  nesting of a definition: a dict of the definition is a dictionary with the same
  keys in the same order, whose entries have the shapes of the items; a
  descriptor is a value or a list.
\<close>

fun same_shape :: "heap \<Rightarrow> entry \<Rightarrow> defn \<Rightarrow> bool" where
  "same_shape h (Val v) (DItem it) = True"
| "same_shape h (Val v) (DMultiItem it) = True"
| "same_shape h (ListRef l) (DItem it) = True"
| "same_shape h (ListRef l) (DMultiItem it) = True"
| "same_shape h (Ref a) (DDict m) =
     (a < length h \<and> map fst (h ! a) = map fst m
      \<and> list_all (\<lambda>kv. case map_of (h ! a) (fst kv) of
                           None \<Rightarrow> False
                         | Some e \<Rightarrow> same_shape h e (snd kv)) m)"
| "same_shape h e t = False"

text \<open>
  The value a leaf flag takes at its construction: \<open>Flag._set_default\<close> keeps
  the default \<open>None\<close> and parses any other default of the descriptor with the
  descriptor's parser (\<open>MultiFlag\<close>: each element of it).
\<close>

fun constructed :: "defn \<Rightarrow> pyval \<Rightarrow> bool" where
  "constructed (DItem it) v =
     (if default it = PNone then v = PNone
      else Flag__parse (parser it) (default it) = Inr v)"
| "constructed (DMultiItem it) v =
     (if default it = PNone then v = PNone
      else (case MultiFlag__parse (parser it) (default it) of
              Inl e \<Rightarrow> False
            | Inr vs \<Rightarrow> v = PList vs))"
| "constructed t v = False"

fun default_of :: "defn \<Rightarrow> pyval" where
  "default_of (DItem it) = default it"
| "default_of (DMultiItem it) = default it"
| "default_of t = PNone"

text \<open>The parser of a descriptor maps the descriptor's default to itself.\<close>

definition stable_default :: "defn \<Rightarrow> bool" where
  "stable_default x = constructed x (default_of x)"

text \<open>
  Every leaf of the definition \<open>m\<close> holds, in the dictionary at \<open>root\<close>, the
  value its flag took at construction, which is the descriptor's default when
  the parser maps that default to itself.
\<close>

definition holds_values :: "state \<Rightarrow> addr \<Rightarrow> (string \<times> defn) list \<Rightarrow> bool" where
  "holds_values st root m \<longleftrightarrow>
     (\<forall>p\<in>set (leaf_paths (DDict m)).
        case node_at (DDict m) p of
          None \<Rightarrow> False
        | Some x \<Rightarrow>
            (case value_at st root p of
               Some v \<Rightarrow> constructed x v \<and> (stable_default x \<longrightarrow> v = default_of x)
             | None \<Rightarrow> False))"

text \<open>A descriptor with the user-defined parser, as \<open>Item(1, ''Help.'', parser)\<close>
  constructs it.\<close>

definition counter_item :: item where
  "counter_item = \<lparr>default = PInt 2, help_string = ''Help.'', parser = successor_parse\<rparr>"

section \<open>Invariants of the shared dictionary\<close>

text \<open>
  The predicates of this section are used in the proofs only.
\<close>

text \<open>The dictionaries reachable from an entry of the store mirror a definition:
  every dict of the definition is reached at an address of the store whose
  dictionary has the keys of that dict in their order, every leaf is reached,
  and two different dicts of the definition are reached at two different
  addresses (the dictionaries form a tree: no dictionary is shared).\<close>

definition tree_ok :: "heap \<Rightarrow> entry \<Rightarrow> defn \<Rightarrow> bool" where
  "tree_ok h e t \<longleftrightarrow>
     (\<forall>p m. node_at t p = Some (DDict m) \<longrightarrow>
        (\<exists>a. descend h e p = Inr (Ref a) \<and> a < length h \<and> map fst (h ! a) = map fst m))
   \<and> (\<forall>p x. node_at t p = Some x \<and> is_leaf x \<longrightarrow> (\<exists>u. descend h e p = Inr u))
   \<and> (\<forall>p q m m' a. node_at t p = Some (DDict m) \<and> node_at t q = Some (DDict m')
         \<and> descend h e p = Inr (Ref a) \<and> descend h e q = Inr (Ref a) \<longrightarrow> p = q)"

text \<open>The dictionaries of a tree lie at addresses from \<open>lo\<close> on.\<close>

definition addrs_above :: "heap \<Rightarrow> entry \<Rightarrow> defn \<Rightarrow> nat \<Rightarrow> bool" where
  "addrs_above h e t lo \<longleftrightarrow>
     (\<forall>p m a. node_at t p = Some (DDict m) \<and> descend h e p = Inr (Ref a) \<longrightarrow> lo \<le> a)"

text \<open>Every leaf of the tree holds the default of its descriptor.\<close>

definition defaults_at :: "heap \<Rightarrow> entry \<Rightarrow> defn \<Rightarrow> bool" where
  "defaults_at h e t \<longleftrightarrow>
     (\<forall>p it. node_at t p = Some (DItem it) \<or> node_at t p = Some (DMultiItem it) \<longrightarrow>
        descend h e p = Inr (Val (default it)))"

definition built :: "heap \<Rightarrow> entry \<Rightarrow> defn \<Rightarrow> nat \<Rightarrow> bool" where
  "built h e t lo \<longleftrightarrow> tree_ok h e t \<and> addrs_above h e t lo \<and> defaults_at h e t"

text \<open>The one-entry dictionary \<open>{name: shared_dict}\<close> that a leaf flag holds: it
  is in the store, refers to the root, and is none of the dictionaries of the
  tree.\<close>

definition wrapper_ok :: "heap \<Rightarrow> addr \<Rightarrow> string \<Rightarrow> addr \<Rightarrow> defn \<Rightarrow> bool" where
  "wrapper_ok h w name root t \<longleftrightarrow>
     w < length h \<and> h ! w = [(name, Ref root)]
     \<and> (\<forall>p m. node_at t p = Some (DDict m) \<longrightarrow> descend h (Ref root) p \<noteq> Inr (Ref w))"

text \<open>The store \<open>h'\<close> comes from \<open>h\<close> by writes at the leaf path \<open>p\<close> only.\<close>

definition writes :: "heap \<Rightarrow> heap \<Rightarrow> addr \<Rightarrow> defn \<Rightarrow> string list \<Rightarrow> bool" where
  "writes h h' root t p \<longleftrightarrow>
     tree_ok h' (Ref root) t
     \<and> (\<forall>q y. node_at t q = Some y \<and> q \<noteq> p \<longrightarrow> descend h' (Ref root) q = descend h (Ref root) q)
     \<and> (\<forall>w name. wrapper_ok h w name root t \<longrightarrow> wrapper_ok h' w name root t)"

text \<open>A flag as its construction leaves it: not yet present on the command line,
  its value the default parsed by \<open>Flag._set_default\<close>.\<close>

definition fresh :: "defn \<Rightarrow> liststore \<Rightarrow> leaf_flag \<Rightarrow> bool" where
  "fresh x ls f \<longleftrightarrow>
     f_present f = 0 \<and> (\<exists>v. constructed x v \<and> read_value ls (f_value f) = Some v)"

definition any_flag :: "defn \<Rightarrow> liststore \<Rightarrow> leaf_flag \<Rightarrow> bool" where
  "any_flag x ls f \<longleftrightarrow> True"


text \<open>The flag of the leaf at path \<open>p\<close> is registered under the dotted name of
  the path, holds that path as its namespace, and the shared dictionary holds the
  flag's value at the path. \<open>installed\<close> says so for a set of leaf paths.\<close>

definition leaf_ok ::
  "(defn \<Rightarrow> liststore \<Rightarrow> leaf_flag \<Rightarrow> bool) \<Rightarrow> state \<Rightarrow> fvid \<Rightarrow> string \<Rightarrow> addr \<Rightarrow> defn
     \<Rightarrow> string list \<Rightarrow> bool" where
  "leaf_ok E st fv name root t p \<longleftrightarrow>
     (\<exists>x f it. node_at t p = Some x
        \<and> (x = DItem it \<and> registries st fv (join SEPARATOR (name # p)) = Some (ItemFlag f)
           \<or> x = DMultiItem it \<and> registries st fv (join SEPARATOR (name # p)) = Some (MultiFlag f))
        \<and> f_parser f = parser it \<and> f_namespace f = name # p
        \<and> wrapper_ok (heap st) (f_shared_dict f) name root t
        \<and> descend (heap st) (Ref root) p = Inr (f_value f)
        \<and> E x (lists st) f)"

definition installed ::
  "(defn \<Rightarrow> liststore \<Rightarrow> leaf_flag \<Rightarrow> bool) \<Rightarrow> state \<Rightarrow> fvid \<Rightarrow> string \<Rightarrow> addr \<Rightarrow> defn
     \<Rightarrow> string list set \<Rightarrow> bool" where
  "installed E st fv name root t S \<longleftrightarrow>
     tree_ok (heap st) (Ref root) t \<and> (\<forall>p\<in>S. leaf_ok E st fv name root t p)"

definition leaves :: "defn \<Rightarrow> string list set" where
  "leaves t = {p. \<exists>x. node_at t p = Some x \<and> is_leaf x}"

text \<open>No list is the value of two leaves of \<open>S\<close>.\<close>

definition unshared :: "state \<Rightarrow> addr \<Rightarrow> string list set \<Rightarrow> bool" where
  "unshared st root S \<longleftrightarrow>
     (\<forall>p\<in>S. \<forall>q\<in>S. \<forall>l. descend (heap st) (Ref root) p = Inr (ListRef l)
        \<and> descend (heap st) (Ref root) q = Inr (ListRef l) \<longrightarrow> p = q)"

text \<open>What one operation on a flag does to the store of lists: the store grows,
  only the list of the flag changes, and the new value of the flag is its old
  value, data, or a new list.\<close>

definition list_step :: "liststore \<Rightarrow> leaf_flag \<Rightarrow> liststore \<Rightarrow> leaf_flag \<Rightarrow> bool" where
  "list_step ls f ls' f' \<longleftrightarrow>
     length ls \<le> length ls'
     \<and> (\<forall>l. l < length ls \<and> f_value f \<noteq> ListRef l \<longrightarrow> ls' ! l = ls ! l)
     \<and> (f_value f' = f_value f
        \<or> (\<exists>v. read_value ls' (f_value f') = Some v)
          \<and> (\<forall>l. f_value f' = ListRef l \<longrightarrow> length ls \<le> l))"

text \<open>What one operation on the flag of the leaf at \<open>p\<close> does to the store and
  the flag.\<close>

definition flag_step ::
  "addr \<Rightarrow> defn \<Rightarrow> string list \<Rightarrow> heap \<Rightarrow> leaf_flag \<Rightarrow> heap \<Rightarrow> leaf_flag \<Rightarrow> bool" where
  "flag_step root t p h f h' f' \<longleftrightarrow>
     writes h h' root t p \<and> descend h' (Ref root) p = Inr (f_value f')
     \<and> f_namespace f' = f_namespace f \<and> f_shared_dict f' = f_shared_dict f
     \<and> f_parser f' = f_parser f"

section \<open>Evaluation of the examples\<close>

lemmas eval_defs = DEFINE_dict_def define_flags_def Item_define_def MultiItem_define_def
  ItemFlag_init_def MultiFlag_init_def set_value_def new_flag_def
  update_shared_dict_def subscript_def setitem_def DEFINE_flag_def register_def Flag__parse_def
  MultiFlag__parse_def DictFlag_init_def DictFlag__parse_def
  init_state_def SEPARATOR_def FLAGS_def image_settings_def String_def Integer_def
  MultiString_def flag_parse_def flag_assign_def ItemFlag_parse_def MultiFlag_parse_def
  DictFlag_parse_def holder_value_def new_value_def extend_value_def read_value_def
  value_at_def

section \<open>The aggregate flag rejects direct overrides\<close>

text \<open>
  Claim C2. Parsing any value other than the shared dictionary itself or the
  empty string with the aggregate flag raises \<open>IllegalFlagValueError\<close>, with a
  message that suggests to override an item instead; parsing the shared
  dictionary or the empty string returns the shared dictionary. For a registered
  aggregate flag an override with another string leaves the state as it is, and
  an override with the empty string keeps the store and the value of the flag.
\<close>

theorem dict_flag_override:
  "(x \<noteq> Ref sd \<and> x \<noteq> Val (PStr EMPTY) \<longrightarrow>
      DictFlag__parse sd x = Inl (IllegalFlagValueError dict_override_message))
   \<and> DictFlag__parse sd (Ref sd) = Inr (Ref sd)
   \<and> DictFlag__parse sd (Val (PStr EMPTY)) = Inr (Ref sd)
   \<and> (\<exists>pre. dict_override_message =
         pre @ ''Did you mean to override one of its `Item`s instead?'')
   \<and> (registries st fv n = Some (DictFlag d) \<and> d_value d = Ref (d_shared_dict d) \<longrightarrow>
        (v \<noteq> PStr EMPTY \<longrightarrow>
           flag_parse st fv n v = (Inl (IllegalFlagValueError dict_override_message), st))
        \<and> (\<exists>st'. flag_parse st fv n (PStr EMPTY) = (Inr (), st')
              \<and> heap st' = heap st
              \<and> holder_value st' (fv, n) = holder_value st (fv, n)
              \<and> holder_value st' (fv, n) = Some (Ref (d_shared_dict d))))"
proof -
  have msg: "\<exists>pre. dict_override_message =
         pre @ ''Did you mean to override one of its `Item`s instead?''"
    unfolding dict_override_message_def
    by (rule exI[of _ "''Can't override a dict flag directly. ''"]) simp
  have sys: "registries st fv n = Some (DictFlag d) \<and> d_value d = Ref (d_shared_dict d) \<longrightarrow>
        (v \<noteq> PStr EMPTY \<longrightarrow>
           flag_parse st fv n v = (Inl (IllegalFlagValueError dict_override_message), st))
        \<and> (\<exists>st'. flag_parse st fv n (PStr EMPTY) = (Inr (), st')
              \<and> heap st' = heap st
              \<and> holder_value st' (fv, n) = holder_value st (fv, n)
              \<and> holder_value st' (fv, n) = Some (Ref (d_shared_dict d)))"
    by (simp add: flag_parse_def DictFlag_parse_def DictFlag__parse_def holder_value_def
        register_def)
  show ?thesis
    using msg sys by (simp add: DictFlag__parse_def)
qed

theorem dict_flag_override_witness:
  "registries image_dict_state FLAGS ''image_settings'' =
     Some (DictFlag \<lparr>d_shared_dict = 0, d_name = ''image_settings'', d_default = Ref 0,
                     d_value = Ref 0, d_present = 0\<rparr>)
   \<and> DictFlag__parse 0 (Ref 1) = Inl (IllegalFlagValueError dict_override_message)
   \<and> flag_parse image_dict_state FLAGS ''image_settings'' (PStr ''{}'') =
       (Inl (IllegalFlagValueError dict_override_message), image_dict_state)
   \<and> (\<exists>st'. flag_parse image_dict_state FLAGS ''image_settings'' (PStr EMPTY) = (Inr (), st')
          \<and> heap st' = heap image_dict_state
          \<and> holder_value st' (FLAGS, ''image_settings'') =
              holder_value image_dict_state (FLAGS, ''image_settings'')
          \<and> holder_value st' (FLAGS, ''image_settings'') = Some (Ref 0))"
proof -
  have reg: "registries image_dict_state FLAGS ''image_settings'' =
     Some (DictFlag \<lparr>d_shared_dict = 0, d_name = ''image_settings'', d_default = Ref 0,
                     d_value = Ref 0, d_present = 0\<rparr>)"
    by (simp add: image_dict_state_def eval_defs)
  from dict_flag_override[where x = "Ref 1" and sd = 0 and st = image_dict_state
      and fv = FLAGS and n = "''image_settings''" and v = "PStr ''{}''"
      and d = "\<lparr>d_shared_dict = 0, d_name = ''image_settings'', d_default = Ref 0,
                     d_value = Ref 0, d_present = 0\<rparr>"] reg
  show ?thesis by (simp add: EMPTY_def)
qed

section \<open>Descriptors parse their defaults\<close>

text \<open>
  Claim C8. \<open>Item.__init__\<close> with a default other than \<open>None\<close> stores the
  result of the descriptor's parser on the default, and raises what the parser
  raises; with the default \<open>None\<close> it stores \<open>None\<close>, whatever the parser
  would do with it.
\<close>

theorem item_init_parses_default:
  "(dflt \<noteq> PNone \<and> p dflt = Inr v \<longrightarrow>
      Item_init dflt help p = Inr \<lparr>default = v, help_string = help, parser = p\<rparr>)
   \<and> (dflt \<noteq> PNone \<and> p dflt = Inl e \<longrightarrow> Item_init dflt help p = Inl e)
   \<and> Item_init PNone help p = Inr \<lparr>default = PNone, help_string = help, parser = p\<rparr>"
  by (simp add: Item_init_def)

theorem item_init_parses_default_witness:
  "Item_init (PStr ''pad'') ''Mode'' ArgumentParser_parse =
     Inr \<lparr>default = PStr ''pad'', help_string = ''Mode'', parser = ArgumentParser_parse\<rparr>
   \<and> Item_init (PInt 5) ''Mode'' ArgumentParser_parse =
     Inl (TypeError ''flag value must be a string'')
   \<and> ArgumentParser_parse PNone = Inl (TypeError ''flag value must be a string'')
   \<and> Item_init PNone ''Mode'' ArgumentParser_parse =
     Inr \<lparr>default = PNone, help_string = ''Mode'', parser = ArgumentParser_parse\<rparr>"
  using item_init_parses_default[of "PStr ''pad''" ArgumentParser_parse "PStr ''pad''" "''Mode''"]
    item_init_parses_default[of "PInt 5" ArgumentParser_parse _ "''Mode''"
      "TypeError ''flag value must be a string''"]
  by simp

lemma parse_each_all2:
  "parse_each p xs = Inr vs \<Longrightarrow> list_all2 (\<lambda>x v. p x = Inr v) xs vs"
  by (induction xs arbitrary: vs) (auto split: sum.splits)

text \<open>
  Claim C10. \<open>MultiItem.__init__\<close> keeps the default \<open>None\<close>; any other
  default is brought to its normal form (a non-string, non-bytes iterable as the
  list of its elements, any other value as a one-element list) and every element
  is parsed; the stored default is \<open>None\<close> or the list of the parsed elements.
\<close>

theorem multi_item_init_normalizes:
  "(dflt = PNone \<longrightarrow>
      MultiItem_init dflt help p = Inr \<lparr>default = PNone, help_string = help, parser = p\<rparr>)
   \<and> (dflt \<noteq> PNone \<longrightarrow>
      MultiItem_init dflt help p =
        (case parse_each p (normalize_default dflt) of
           Inl e \<Rightarrow> Inl e
         | Inr vs \<Rightarrow> Inr \<lparr>default = PList vs, help_string = help, parser = p\<rparr>))
   \<and> (MultiItem_init dflt help p = Inr it \<longrightarrow>
        default it = PNone \<or>
        (\<exists>vs. default it = PList vs
           \<and> list_all2 (\<lambda>x v. p x = Inr v) (normalize_default dflt) vs))"
proof -
  have eq: "dflt \<noteq> PNone \<Longrightarrow> MultiItem_init dflt help p =
        (case parse_each p (normalize_default dflt) of
           Inl e \<Rightarrow> Inl e
         | Inr vs \<Rightarrow> Inr \<lparr>default = PList vs, help_string = help, parser = p\<rparr>)"
    by (cases dflt) (simp_all add: MultiItem_init_def normalize_default_def)
  have none: "dflt = PNone \<Longrightarrow>
      MultiItem_init dflt help p = Inr \<lparr>default = PNone, help_string = help, parser = p\<rparr>"
    by (simp add: MultiItem_init_def)
  have res: "MultiItem_init dflt help p = Inr it \<Longrightarrow>
        default it = PNone \<or>
        (\<exists>vs. default it = PList vs
           \<and> list_all2 (\<lambda>x v. p x = Inr v) (normalize_default dflt) vs)"
  proof (cases "dflt = PNone")
    case True
    assume "MultiItem_init dflt help p = Inr it"
    with none[OF True] show ?thesis by auto
  next
    case False
    assume "MultiItem_init dflt help p = Inr it"
    with eq[OF False] show ?thesis
      by (auto split: sum.splits dest: parse_each_all2)
  qed
  show ?thesis using eq none res by blast
qed

theorem multi_item_init_normalizes_witness:
  "MultiItem_init PNone ''Help.'' ArgumentParser_parse =
     Inr \<lparr>default = PNone, help_string = ''Help.'', parser = ArgumentParser_parse\<rparr>
   \<and> MultiItem_init (PTuple [PStr ''a'', PStr ''b'']) ''Help.'' ArgumentParser_parse =
     Inr \<lparr>default = PList [PStr ''a'', PStr ''b''], help_string = ''Help.'',
          parser = ArgumentParser_parse\<rparr>
   \<and> MultiItem_init (PStr ''ab'') ''Help.'' ArgumentParser_parse =
     Inr \<lparr>default = PList [PStr ''ab''], help_string = ''Help.'',
          parser = ArgumentParser_parse\<rparr>
   \<and> MultiItem_init (PList [PStr ''a'', PInt 1]) ''Help.'' ArgumentParser_parse =
     Inl (TypeError ''flag value must be a string'')"
  using multi_item_init_normalizes[of PNone "''Help.''" ArgumentParser_parse]
    multi_item_init_normalizes[of "PTuple [PStr ''a'', PStr ''b'']" "''Help.''"
      ArgumentParser_parse]
    multi_item_init_normalizes[of "PStr ''ab''" "''Help.''" ArgumentParser_parse]
    multi_item_init_normalizes[of "PList [PStr ''a'', PInt 1]" "''Help.''" ArgumentParser_parse]
  by (simp add: normalize_default_def)

section \<open>Malformed definitions\<close>

lemma bad_types_Cons:
  "bad_types (DDict ((k, v) # rest)) = bad_types v @ bad_types (DDict rest)"
  by simp

lemma extract_bad_types:
  "(bad_types (DDict m) = [] \<longrightarrow> (\<exists>a h'. extract_defaults h m = Inr (a, h')))
   \<and> (bad_types (DDict m) \<noteq> [] \<longrightarrow>
        extract_defaults h m = Inl (TypeError (extract_message (hd (bad_types (DDict m))))))"
  "(bad_types (DDict rest) = [] \<longrightarrow> (\<exists>h'. extract_items h2 result rest = Inr h'))
   \<and> (bad_types (DDict rest) \<noteq> [] \<longrightarrow>
        extract_items h2 result rest =
          Inl (TypeError (extract_message (hd (bad_types (DDict rest))))))"
proof (induction h m and h2 result rest rule: extract_defaults_extract_items.induct)
  case (1 h mapping)
  then show ?case by (auto simp del: bad_types.simps split: sum.splits)
next
  case (2 h result)
  then show ?case by simp
next
  case (3 h result key it rest)
  then show ?case by (simp del: bad_types.simps(2) add: bad_types_Cons)
next
  case (4 h result key it rest)
  then show ?case by (simp del: bad_types.simps(2) add: bad_types_Cons)
next
  case (5 h result key m rest)
  show ?case
  proof (cases "bad_types (DDict m) = []")
    case True
    with 5(1) obtain a h1 where e: "extract_defaults h m = Inr (a, h1)" by auto
    from 5(2)[OF e refl] True e show ?thesis
      by (simp del: bad_types.simps(2) extract_defaults.simps add: bad_types_Cons)
  next
    case False
    with 5(1) show ?thesis
      by (simp del: bad_types.simps(2) extract_defaults.simps add: bad_types_Cons hd_append)
  qed
next
  case (6 h result key type_name rest)
  then show ?case by (simp del: bad_types.simps(2) add: bad_types_Cons)
qed

text \<open>
  Claim C7. When some node of the definition is neither a dict nor an
  \<open>Item\<close> or \<open>MultiItem\<close>, \<open>_extract_defaults\<close> raises a \<open>TypeError\<close>
  whose message holds the type name of such a node (the first one in document
  order), and \<open>define_flags\<close> raises it before it changes the state.
\<close>

theorem malformed_definition_reports_type:
  assumes "bad_types (DDict m) \<noteq> []"
  shows "extract_defaults h m = Inl (TypeError (extract_message (hd (bad_types (DDict m)))))
    \<and> define_flags st name m fv =
        (Inl (TypeError (extract_message (hd (bad_types (DDict m))))), st)
    \<and> hd (bad_types (DDict m)) \<in> set (bad_types (DDict m))"
  using assms extract_bad_types(1)[of m]
  by (simp del: bad_types.simps extract_defaults.simps add: define_flags_def)

theorem malformed_definition_reports_type_witness:
  "bad_types (DDict [(''mode'', DItem (String ''pad'')),
                     (''sizes'', DDict [(''width'', DOther ''int'')])]) \<noteq> []
   \<and> extract_defaults [] [(''mode'', DItem (String ''pad'')),
                     (''sizes'', DDict [(''width'', DOther ''int'')])] =
       Inl (TypeError (''DEFINE_dict only supports flat or nested dictionaries, '' @
         ''and these must contain `ff.Item`s or `ff.MultiItems. '' @
         ''Found type int in this definition.''))"
  using malformed_definition_reports_type[of
      "[(''mode'', DItem (String ''pad'')), (''sizes'', DDict [(''width'', DOther ''int'')])]" "[]"]
  by (simp add: extract_message_def)

section \<open>Definitions without leaves\<close>

text \<open>
  Claim C6, as the code has it. \<open>DEFINE_dict\<close> without keyword arguments
  raises a \<open>ValueError\<close> and leaves the state as it is, so no option is
  registered. (The check is on the keyword arguments, not on the leaves.)
\<close>

theorem define_dict_without_kwargs:
  "DEFINE_dict st args [] =
     (Inl (ValueError (if args = [] then no_name_message else no_kwargs_message)), st)"
  by (simp add: DEFINE_dict_def)

text \<open>
  A definition that holds only an empty nested dict has no leaf, and
  \<open>DEFINE_dict\<close> accepts it; \<open>define_flags\<close> accepts the empty definition.
\<close>

theorem define_dict_leafless_counterexample:
  "leaf_paths (DDict [(''sub'', DDict [])]) = []
   \<and> fst (DEFINE_dict init_state [ArgStr ''settings''] [(''sub'', DDict [])]) =
       Inr (FLAGS, ''settings'')
   \<and> fst (define_flags init_state ''settings'' [] FLAGS) = Inr 0"
  by (simp add: DEFINE_dict_def define_flags_def DictFlag_init_def DictFlag__parse_def
      DEFINE_flag_def register_def init_state_def FLAGS_def)

section \<open>The shared dictionary and its flags\<close>

lemma descend_append:
  "descend h d (p @ q) = (case descend h d p of Inl e \<Rightarrow> Inl e | Inr d' \<Rightarrow> descend h d' q)"
  by (induction p arbitrary: d) (auto split: sum.splits)

lemma descend_snoc:
  "descend h d (p @ [k]) = (case descend h d p of Inl e \<Rightarrow> Inl e | Inr d' \<Rightarrow> subscript h d' k)"
  by (simp add: descend_append split: sum.splits)

lemma node_at_append:
  "node_at t (p @ q) = (case node_at t p of None \<Rightarrow> None | Some s \<Rightarrow> node_at s q)"
proof (induction p arbitrary: t)
  case Nil
  then show ?case by simp
next
  case (Cons k p)
  then show ?case by (cases t) (auto split: option.splits)
qed

lemma node_at_leaf: "is_leaf x \<Longrightarrow> node_at x p = Some y \<Longrightarrow> p = [] \<and> y = x"
  by (cases x; cases p) auto

lemma node_at_snoc_Some:
  assumes "node_at t (p @ [k]) = Some x"
  shows "\<exists>m. node_at t p = Some (DDict m) \<and> map_of m k = Some x"
proof -
  from assms obtain s where s: "node_at t p = Some s" and x: "node_at s [k] = Some x"
    by (auto simp: node_at_append split: option.splits)
  from x show ?thesis using s by (cases s) (auto split: option.splits)
qed

lemma subscript_Ref:
  "a < length h \<Longrightarrow> subscript h (Ref a) k =
     (case map_of (h ! a) k of None \<Rightarrow> Inl (KeyError k) | Some e \<Rightarrow> Inr e)"
  by (simp add: subscript_def)

lemma subscript_Val: "subscript h (Val v) k = Inl (TypeError ''object is not subscriptable'')"
  by (simp add: subscript_def)

lemma subscript_ListRef:
  "subscript h (ListRef l) k = Inl (TypeError ''list indices must be integers or slices, not str'')"
  by (simp add: subscript_def)

text \<open>Frame: a descent only depends on the slots it reads.\<close>

lemma descend_frame:
  assumes closed: "\<And>p k. Q (p @ [k]) \<Longrightarrow> Q p"
    and same: "\<And>p k a. Q (p @ [k]) \<Longrightarrow> descend h e p = Inr (Ref a) \<Longrightarrow>
                 a < length h \<and> a < length h' \<and> map_of (h' ! a) k = map_of (h ! a) k"
    and q: "Q q"
  shows "descend h' e q = descend h e q"
  using q
proof (induction q rule: rev_induct)
  case Nil
  then show ?case by simp
next
  case (snoc k p)
  from closed[OF snoc.prems] have "Q p" .
  with snoc.IH have ih: "descend h' e p = descend h e p" by simp
  show ?case
  proof (cases "descend h e p")
    case (Inl err)
    with ih show ?thesis by (simp add: descend_snoc)
  next
    case (Inr d)
    show ?thesis
    proof (cases d)
      case (Val v)
      with Inr ih show ?thesis by (simp add: descend_snoc subscript_Val)
    next
      case (ListRef l)
      with Inr ih show ?thesis by (simp add: descend_snoc subscript_ListRef)
    next
      case (Ref a)
      with Inr same[OF snoc.prems] have "a < length h" "a < length h'"
        "map_of (h' ! a) k = map_of (h ! a) k" by auto
      with Inr Ref ih show ?thesis by (simp add: descend_snoc subscript_Ref)
    qed
  qed
qed

lemma tree_okD_dict:
  "tree_ok h e t \<Longrightarrow> node_at t p = Some (DDict m) \<Longrightarrow>
     \<exists>a. descend h e p = Inr (Ref a) \<and> a < length h \<and> map fst (h ! a) = map fst m"
  unfolding tree_ok_def by blast

lemma tree_okD_leaf:
  "tree_ok h e t \<Longrightarrow> node_at t p = Some x \<Longrightarrow> is_leaf x \<Longrightarrow> \<exists>u. descend h e p = Inr u"
  unfolding tree_ok_def by blast

lemma tree_okD_inj:
  "tree_ok h e t \<Longrightarrow> node_at t p = Some (DDict m) \<Longrightarrow> node_at t q = Some (DDict m') \<Longrightarrow>
     descend h e p = Inr (Ref a) \<Longrightarrow> descend h e q = Inr (Ref a) \<Longrightarrow> p = q"
  unfolding tree_ok_def by blast

lemma map_of_keys:
  "map fst xs = map fst ys \<Longrightarrow> map_of ys k = Some y \<Longrightarrow> \<exists>x. map_of xs k = Some x"
  by (metis domI domD dom_map_of_conv_image_fst list.set_map)

text \<open>Writing a value at a leaf path of a tree.\<close>

lemma tree_update:
  assumes ok: "tree_ok h e t" and leaf: "node_at t (c @ [k]) = Some x" "is_leaf x"
  shows "\<exists>a. descend h e c = Inr (Ref a) \<and> a < length h
      \<and> tree_ok (h[a := AList.update k u (h ! a)]) e t
      \<and> descend (h[a := AList.update k u (h ! a)]) e (c @ [k]) = Inr u
      \<and> (\<forall>q y. node_at t q = Some y \<and> q \<noteq> c @ [k] \<longrightarrow>
            descend (h[a := AList.update k u (h ! a)]) e q = descend h e q)
      \<and> (\<exists>m. node_at t c = Some (DDict m))"
proof -
  from node_at_snoc_Some[OF leaf(1)] obtain m where
    c: "node_at t c = Some (DDict m)" and mk: "map_of m k = Some x" by blast
  from tree_okD_dict[OF ok c] obtain a where
    a: "descend h e c = Inr (Ref a)" "a < length h" "map fst (h ! a) = map fst m" by blast
  define h' where "h' = h[a := AList.update k u (h ! a)]"
  have len: "length h' = length h" by (simp add: h'_def)
  have kin: "k \<in> fst ` set (h ! a)"
    using a(3) mk by (metis image_set map_of_eq_None_iff option.distinct(1))
  have keys: "map fst (h' ! a) = map fst (h ! a)"
    using a(2) kin by (simp add: h'_def update_keys)
  have other: "\<And>b. b \<noteq> a \<Longrightarrow> h' ! b = h ! b" by (simp add: h'_def)
  define Q where "Q q \<longleftrightarrow> node_at t q \<noteq> None \<and> q \<noteq> c @ [k]" for q
  have Qclosed: "Q p" if "Q (p @ [j])" for p j
  proof -
    from that obtain y where y: "node_at t (p @ [j]) = Some y" by (auto simp: Q_def)
    from node_at_snoc_Some[OF y] obtain m' where p: "node_at t p = Some (DDict m')" by blast
    have "p \<noteq> c @ [k]" using p leaf by (cases x) auto
    with p show ?thesis by (simp add: Q_def)
  qed
  have Qsame: "b < length h \<and> b < length h' \<and> map_of (h' ! b) j = map_of (h ! b) j"
    if "Q (p @ [j])" "descend h e p = Inr (Ref b)" for p j b
  proof -
    from that obtain y where y: "node_at t (p @ [j]) = Some y" and ne: "p @ [j] \<noteq> c @ [k]"
      by (auto simp: Q_def)
    from node_at_snoc_Some[OF y] obtain m' where p: "node_at t p = Some (DDict m')" by blast
    from tree_okD_dict[OF ok p] that(2) have b: "b < length h" by auto
    show ?thesis
    proof (cases "b = a")
      case True
      with tree_okD_inj[OF ok p c that(2)] a(1) have "p = c" by simp
      with ne have "j \<noteq> k" by simp
      with True a(2) show ?thesis by (simp add: h'_def len update_conv')
    next
      case False
      with b show ?thesis by (simp add: other len)
    qed
  qed
  have frame: "descend h' e q = descend h e q" if "node_at t q = Some y" "q \<noteq> c @ [k]" for q y
    by (rule descend_frame[where Q = Q, OF Qclosed Qsame]) (use that in \<open>auto simp: Q_def\<close>)
  have cne: "c \<noteq> c @ [k]" by simp
  have dc: "descend h' e c = Inr (Ref a)" using frame[OF c cne] a(1) by simp
  have new: "descend h' e (c @ [k]) = Inr u"
    using dc a(2) by (simp add: descend_snoc subscript_Ref len h'_def update_conv')
  have ok': "tree_ok h' e t"
    unfolding tree_ok_def
  proof (intro conjI allI impI)
    fix p m'
    assume p: "node_at t p = Some (DDict m')"
    have pne: "p \<noteq> c @ [k]" using p leaf by (cases x) auto
    from tree_okD_dict[OF ok p] obtain b where
      b: "descend h e p = Inr (Ref b)" "b < length h" "map fst (h ! b) = map fst m'" by blast
    have "map fst (h' ! b) = map fst m'"
      using b(3) keys other by (cases "b = a") auto
    with frame[OF p pne] b len
    show "\<exists>a. descend h' e p = Inr (Ref a) \<and> a < length h' \<and> map fst (h' ! a) = map fst m'"
      by auto
  next
    fix p y
    assume p: "node_at t p = Some y \<and> is_leaf y"
    show "\<exists>u. descend h' e p = Inr u"
    proof (cases "p = c @ [k]")
      case True
      with new show ?thesis by auto
    next
      case False
      with frame[of p y] p tree_okD_leaf[OF ok, of p y] show ?thesis by auto
    qed
  next
    fix p q m1 m2 b
    assume pq: "node_at t p = Some (DDict m1) \<and> node_at t q = Some (DDict m2)
       \<and> descend h' e p = Inr (Ref b) \<and> descend h' e q = Inr (Ref b)"
    have pne: "p \<noteq> c @ [k]" and qne: "q \<noteq> c @ [k]" using pq leaf by (cases x; auto)+
    from pq frame[of p, OF _ pne] frame[of q, OF _ qne]
    have "descend h e p = Inr (Ref b)" "descend h e q = Inr (Ref b)" by auto
    with pq tree_okD_inj[OF ok] show "p = q" by blast
  qed
  from a(1,2) ok' new frame c show ?thesis unfolding h'_def by blast
qed

lemma built_leaf:
  "is_leaf x \<Longrightarrow> (\<And>it. x = DItem it \<or> x = DMultiItem it \<Longrightarrow> v = default it) \<Longrightarrow>
     built h (Val v) x lo"
  unfolding built_def tree_ok_def addrs_above_def defaults_at_def
  by (cases x) (auto dest!: node_at_leaf[rotated])

lemma node_at_extend:
  assumes "k \<notin> fst ` set seen"
  shows "node_at (DDict (seen @ [(k, x)])) (j # p) =
           (if j = k then node_at x p else node_at (DDict seen) (j # p))"
proof -
  have "map_of seen k = None" using assms by (simp add: map_of_eq_None_iff)
  then show ?thesis
    by (auto simp: map_add_def split: option.splits)
qed

lemma extend_cases:
  assumes "k \<notin> fst ` set seen" and "node_at (DDict (seen @ [(k, x)])) p = Some y"
  obtains (root) "p = []" "y = DDict (seen @ [(k, x)])"
    | (new) p' where "p = k # p'" "node_at x p' = Some y"
    | (old) j p' where "p = j # p'" "j \<noteq> k" "node_at (DDict seen) p = Some y"
proof (cases p)
  case Nil
  with assms(2) show ?thesis using root by simp
next
  case (Cons j p')
  with assms node_at_extend[OF assms(1), of x j p'] show ?thesis
    using new old by (cases "j = k") auto
qed

lemma built_extend:
  assumes b: "built h (Ref r) (DDict seen) r"
    and k: "k \<notin> fst ` set seen"
    and child: "built h1 e' x (length h)"
    and ext: "length h \<le> length h1" "\<And>i. i < length h \<Longrightarrow> h1 ! i = h ! i"
  shows "built (h1[r := AList.update k e' (h1 ! r)]) (Ref r) (DDict (seen @ [(k, x)])) r"
proof -
  define h2 where "h2 = h1[r := AList.update k e' (h1 ! r)]"
  let ?T = "DDict (seen @ [(k, x)])"
  from b have ok: "tree_ok h (Ref r) (DDict seen)" and ab: "addrs_above h (Ref r) (DDict seen) r"
    and df: "defaults_at h (Ref r) (DDict seen)" by (auto simp: built_def)
  from child have ok1: "tree_ok h1 e' x" and ab1: "addrs_above h1 e' x (length h)"
    and df1: "defaults_at h1 e' x" by (auto simp: built_def)
  from tree_okD_dict[OF ok, of "[]" "seen"] have r: "r < length h" "map fst (h ! r) = map fst seen"
    by auto
  have len2: "length h2 = length h1" by (simp add: h2_def)
  have r1: "r < length h1" using r ext by simp
  have hr: "h1 ! r = h ! r" using r ext by simp
  have cell: "\<And>i. i \<noteq> r \<Longrightarrow> h2 ! i = h1 ! i" by (simp add: h2_def)
  have cellr: "h2 ! r = AList.update k e' (h ! r)" using r1 hr by (simp add: h2_def)
  have knot: "k \<notin> fst ` set (h ! r)" using k r(2) by (metis image_set)
  have keys: "map fst (h2 ! r) = map fst (seen @ [(k, x)])"
    using knot r(2) k by (simp add: cellr update_keys)
  \<comment> \<open>descents in the old part\<close>
  have old_ne: "a \<noteq> r" if "node_at (DDict seen) (j # p) = Some (DDict m)"
      "descend h (Ref r) (j # p) = Inr (Ref a)" for j p m a
  proof
    assume "a = r"
    moreover have "node_at (DDict seen) [] = Some (DDict seen)" by simp
    moreover have "descend h (Ref r) [] = Inr (Ref r)" by simp
    ultimately have "j # p = []" using tree_okD_inj[OF ok that(1) _ that(2)] by blast
    then show False by simp
  qed
  have old_desc: "descend h2 (Ref r) q = descend h (Ref r) q"
    if "node_at (DDict seen) q = Some y" "\<forall>p'. q \<noteq> k # p'" for q y
  proof (rule descend_frame[where Q = "\<lambda>q. node_at (DDict seen) q \<noteq> None \<and> (\<forall>p'. q \<noteq> k # p')"])
    fix p j
    assume "node_at (DDict seen) (p @ [j]) \<noteq> None \<and> (\<forall>p'. p @ [j] \<noteq> k # p')"
    then show "node_at (DDict seen) p \<noteq> None \<and> (\<forall>p'. p \<noteq> k # p')"
      by (auto dest: node_at_snoc_Some)
  next
    fix p j a
    assume Q: "node_at (DDict seen) (p @ [j]) \<noteq> None \<and> (\<forall>p'. p @ [j] \<noteq> k # p')"
      and d: "descend h (Ref r) p = Inr (Ref a)"
    from Q obtain m where p: "node_at (DDict seen) p = Some (DDict m)"
      by (auto dest: node_at_snoc_Some)
    from tree_okD_dict[OF ok p] d have a: "a < length h" by auto
    show "a < length h \<and> a < length h2 \<and> map_of (h2 ! a) j = map_of (h ! a) j"
    proof (cases "a = r")
      case True
      have "p = []"
      proof (cases p)
        case (Cons i p')
        with old_ne[of i p' m a] p d True show ?thesis by simp
      qed simp
      with Q have "j \<noteq> k" by auto
      with True a ext(1) show ?thesis by (simp add: cellr len2 update_conv')
    next
      case False
      with a ext show ?thesis by (simp add: cell len2)
    qed
  next
    show "node_at (DDict seen) q \<noteq> None \<and> (\<forall>p'. q \<noteq> k # p')" using that by simp
  qed
  \<comment> \<open>descents in the new child\<close>
  have new_desc: "descend h2 e' q = descend h1 e' q" if "node_at x q = Some y" for q y
  proof (rule descend_frame[where Q = "\<lambda>q. node_at x q \<noteq> None"])
    fix p j
    assume "node_at x (p @ [j]) \<noteq> None"
    then show "node_at x p \<noteq> None" by (auto dest: node_at_snoc_Some)
  next
    fix p j a
    assume Q: "node_at x (p @ [j]) \<noteq> None" and d: "descend h1 e' p = Inr (Ref a)"
    from Q obtain m where p: "node_at x p = Some (DDict m)"
      by (auto dest: node_at_snoc_Some)
    from tree_okD_dict[OF ok1 p] d have a: "a < length h1" by auto
    from ab1 p d have "length h \<le> a" by (auto simp: addrs_above_def)
    with r have "a \<noteq> r" by simp
    with a show "a < length h1 \<and> a < length h2 \<and> map_of (h2 ! a) j = map_of (h1 ! a) j"
      by (simp add: cell len2)
  next
    show "node_at x q \<noteq> None" using that by simp
  qed
  have sub: "subscript h2 (Ref r) k = Inr e'"
    using r1 by (simp add: subscript_Ref len2 cellr update_conv')
  have newp: "descend h2 (Ref r) (k # q) = descend h1 e' q" if "node_at x q = Some y" for q y
    using new_desc[OF that] sub by simp
  \<comment> \<open>the address of every dict of the extended tree\<close>
  have addr: "\<exists>a. descend h2 (Ref r) p = Inr (Ref a) \<and> a < length h2
        \<and> map fst (h2 ! a) = map fst m
        \<and> (p = [] \<longrightarrow> a = r)
        \<and> (\<forall>p'. p = k # p' \<longrightarrow> length h \<le> a \<and> descend h1 e' p' = Inr (Ref a))
        \<and> (p \<noteq> [] \<and> (\<forall>p'. p \<noteq> k # p') \<longrightarrow>
              r < a \<and> a < length h \<and> descend h (Ref r) p = Inr (Ref a))"
    if p: "node_at ?T p = Some (DDict m)" for p m
    using k p
  proof (cases rule: extend_cases)
    case root
    then show ?thesis using r1 keys by (simp add: len2)
  next
    case (new p')
    from tree_okD_dict[OF ok1 new(2)] obtain a where
      a: "descend h1 e' p' = Inr (Ref a)" "a < length h1" "map fst (h1 ! a) = map fst m" by blast
    from ab1 new(2) a(1) have lo: "length h \<le> a" by (auto simp: addrs_above_def)
    with r have "a \<noteq> r" by simp
    with a lo newp[OF new(2)] new(1) show ?thesis by (simp add: cell len2)
  next
    case (old j p')
    from tree_okD_dict[OF ok old(3)] obtain a where
      a: "descend h (Ref r) p = Inr (Ref a)" "a < length h" "map fst (h ! a) = map fst m" by blast
    from old_ne[of j p' m a] old a have ne: "a \<noteq> r" by simp
    from ab old(3) a(1) have "r \<le> a" by (auto simp: addrs_above_def)
    with ne have ra: "r < a" by simp
    have q: "\<forall>p'. p \<noteq> k # p'" using old by simp
    from old_desc[OF old(3) q] a ne ra ext old(1,2) show ?thesis by (simp add: cell len2)
  qed
  have ok2: "tree_ok h2 (Ref r) ?T"
    unfolding tree_ok_def
  proof (intro conjI allI impI)
    fix p m
    assume "node_at ?T p = Some (DDict m)"
    from addr[OF this]
    show "\<exists>a. descend h2 (Ref r) p = Inr (Ref a) \<and> a < length h2 \<and> map fst (h2 ! a) = map fst m"
      by blast
  next
    fix p y
    assume py: "node_at ?T p = Some y \<and> is_leaf y"
    then have p: "node_at ?T p = Some y" and y: "is_leaf y" by auto
    from k p show "\<exists>u. descend h2 (Ref r) p = Inr u"
    proof (cases rule: extend_cases)
      case root
      with y show ?thesis by simp
    next
      case (new p')
      with newp[OF new(2)] tree_okD_leaf[OF ok1 new(2) y] show ?thesis by simp
    next
      case (old j p')
      have q: "\<forall>p'. p \<noteq> k # p'" using old by simp
      from old_desc[OF old(3) q] tree_okD_leaf[OF ok old(3) y] show ?thesis by simp
    qed
  next
    fix p q m m' a
    assume A: "node_at ?T p = Some (DDict m) \<and> node_at ?T q = Some (DDict m')
       \<and> descend h2 (Ref r) p = Inr (Ref a) \<and> descend h2 (Ref r) q = Inr (Ref a)"
    then have p: "node_at ?T p = Some (DDict m)" and q: "node_at ?T q = Some (DDict m')"
      and dp: "descend h2 (Ref r) p = Inr (Ref a)" and dq: "descend h2 (Ref r) q = Inr (Ref a)"
      by auto
    note ap = addr[OF p] and aq = addr[OF q]
    from k p show "p = q"
    proof (cases rule: extend_cases)
      case root
      with ap dp have ar: "a = r" by simp
      from k q show ?thesis
      proof (cases rule: extend_cases)
        case root
        with \<open>p = []\<close> show ?thesis by simp
      next
        case (new q')
        with aq dq ar r show ?thesis by auto
      next
        case (old j q')
        with aq dq ar show ?thesis by auto
      qed
    next
      case (new p')
      with ap dp have a1: "length h \<le> a" "descend h1 e' p' = Inr (Ref a)" by auto
      from k q show ?thesis
      proof (cases rule: extend_cases)
        case root
        with aq dq a1 r show ?thesis by auto
      next
        case new2: (new q')
        with aq dq have "descend h1 e' q' = Inr (Ref a)" by auto
        with tree_okD_inj[OF ok1 new(2) new2(2) a1(2)] new(1) new2(1) show ?thesis by simp
      next
        case (old j q')
        with aq dq a1 show ?thesis by auto
      qed
    next
      case (old j p')
      with ap dp have a1: "r < a" "a < length h" "descend h (Ref r) p = Inr (Ref a)" by auto
      from k q show ?thesis
      proof (cases rule: extend_cases)
        case root
        with aq dq a1 show ?thesis by auto
      next
        case (new q')
        with aq dq a1 show ?thesis by auto
      next
        case old2: (old i q')
        with aq dq have "descend h (Ref r) q = Inr (Ref a)" by auto
        with tree_okD_inj[OF ok old(3) old2(3) a1(3)] show ?thesis by simp
      qed
    qed
  qed
  have ab2: "addrs_above h2 (Ref r) ?T r"
    unfolding addrs_above_def
  proof (intro allI impI)
    fix p m a
    assume A: "node_at ?T p = Some (DDict m) \<and> descend h2 (Ref r) p = Inr (Ref a)"
    with addr[of p m] r show "r \<le> a" by (cases p) (auto split: if_splits)
  qed
  have df2: "defaults_at h2 (Ref r) ?T"
    unfolding defaults_at_def
  proof (intro allI impI)
    fix p it
    assume A: "node_at ?T p = Some (DItem it) \<or> node_at ?T p = Some (DMultiItem it)"
    then obtain y where p: "node_at ?T p = Some y" and y: "y = DItem it \<or> y = DMultiItem it"
      by auto
    from k p show "descend h2 (Ref r) p = Inr (Val (default it))"
    proof (cases rule: extend_cases)
      case root
      with y show ?thesis by auto
    next
      case (new p')
      with newp[OF new(2)] df1 y show ?thesis by (auto simp: defaults_at_def)
    next
      case (old j p')
      have q: "\<forall>p'. p \<noteq> k # p'" using old by simp
      from old_desc[OF old(3) q] df old(3) y show ?thesis by (auto simp: defaults_at_def)
    qed
  qed
  from ok2 ab2 df2 show ?thesis unfolding h2_def built_def by simp
qed

lemma node_at_empty: "node_at (DDict []) p = Some y \<Longrightarrow> p = [] \<and> y = DDict []"
  by (cases p) auto

lemma built_empty: "built (h @ [[]]) (Ref (length h)) (DDict []) (length h)"
  unfolding built_def tree_ok_def addrs_above_def defaults_at_def
  by (auto dest!: node_at_empty)

lemma extract_built:
  "distinct_keys (DDict m) \<Longrightarrow> extract_defaults h m = Inr (a, h') \<Longrightarrow>
     a = length h \<and> length h < length h' \<and> (\<forall>i<length h. h' ! i = h ! i)
     \<and> built h' (Ref a) (DDict m) (length h)"
  "built h2 (Ref r) (DDict seen) r \<Longrightarrow> distinct (map fst (seen @ rest)) \<Longrightarrow>
     (\<forall>kv\<in>set rest. distinct_keys (snd kv)) \<Longrightarrow> extract_items h2 r rest = Inr h3 \<Longrightarrow>
     length h2 \<le> length h3 \<and> (\<forall>i<r. h3 ! i = h2 ! i)
     \<and> built h3 (Ref r) (DDict (seen @ rest)) r"
proof (induction h m and h2 r rest arbitrary: a h' and seen h3
    rule: extract_defaults_extract_items.induct)
  case (1 h mapping)
  from "1.prems"(2) obtain hx where
    ex: "extract_items (h @ [[]]) (length h) mapping = Inr hx" and a: "a = length h" "h' = hx"
    by (auto split: sum.splits)
  from "1.prems"(1) have d: "distinct (map fst ([] @ mapping))"
    "\<forall>kv\<in>set mapping. distinct_keys (snd kv)"
    by (auto simp: list_all_iff)
  from "1.IH"[OF built_empty d ex] a show ?case
    by (auto simp: nth_append)
next
  case (2 h result)
  then show ?case by simp
next
  case (3 h result key it rest)
  let ?h1 = "h[result := AList.update key (Val (default it)) (h ! result)]"
  from "3.prems"(2) have k: "key \<notin> fst ` set seen" by auto
  have b1: "built ?h1 (Ref result) (DDict (seen @ [(key, DItem it)])) result"
    by (rule built_extend[OF "3.prems"(1) k built_leaf]) auto
  from "3.prems" have d: "distinct (map fst ((seen @ [(key, DItem it)]) @ rest))"
    "\<forall>kv\<in>set rest. distinct_keys (snd kv)"
    "extract_items ?h1 result rest = Inr h3" by auto
  from "3.IH"[OF b1 d] show ?case by auto
next
  case (4 h result key it rest)
  let ?h1 = "h[result := AList.update key (Val (default it)) (h ! result)]"
  from "4.prems"(2) have k: "key \<notin> fst ` set seen" by auto
  have b1: "built ?h1 (Ref result) (DDict (seen @ [(key, DMultiItem it)])) result"
    by (rule built_extend[OF "4.prems"(1) k built_leaf]) auto
  from "4.prems" have d: "distinct (map fst ((seen @ [(key, DMultiItem it)]) @ rest))"
    "\<forall>kv\<in>set rest. distinct_keys (snd kv)"
    "extract_items ?h1 result rest = Inr h3" by auto
  from "4.IH"[OF b1 d] show ?case by auto
next
  case (5 h result key m rest)
  from "5.prems"(4) obtain a h1 where
    ex: "extract_defaults h m = Inr (a, h1)"
    and rest: "extract_items (h1[result := AList.update key (Ref a) (h1 ! result)]) result rest
      = Inr h3"
    by (auto simp del: extract_defaults.simps split: sum.splits)
  from "5.prems"(3) have dm: "distinct_keys (DDict m)" by simp
  from "5.IH"(1)[OF dm ex] have a: "a = length h" and len: "length h < length h1"
    and same: "\<forall>i<length h. h1 ! i = h ! i" and bm: "built h1 (Ref a) (DDict m) (length h)"
    by auto
  let ?h2 = "h1[result := AList.update key (Ref a) (h1 ! result)]"
  from "5.prems"(2) have k: "key \<notin> fst ` set seen" by auto
  have b1: "built ?h2 (Ref result) (DDict (seen @ [(key, DDict m)])) result"
    by (rule built_extend[OF "5.prems"(1) k bm]) (use len same in auto)
  from "5.prems" have d: "distinct (map fst ((seen @ [(key, DDict m)]) @ rest))"
    "\<forall>kv\<in>set rest. distinct_keys (snd kv)" by auto
  from "5.IH"(2)[OF ex refl b1 d rest]
  have r: "length ?h2 \<le> length h3" "\<forall>i<result. h3 ! i = ?h2 ! i"
    "built h3 (Ref result) (DDict ((seen @ [(key, DDict m)]) @ rest)) result" by auto
  from "5.prems"(1) have "result < length h"
    using tree_okD_dict[of h "Ref result" "DDict seen" "[]" "seen"] by (auto simp: built_def)
  with r len same show ?case by auto
next
  case (6 h result key type_name rest)
  then show ?case by simp
qed

lemma writes_refl: "tree_ok h (Ref root) t \<Longrightarrow> writes h h root t p"
  by (simp add: writes_def)

lemma writes_trans:
  "writes h h1 root t p \<Longrightarrow> writes h1 h2 root t p \<Longrightarrow> writes h h2 root t p"
  by (simp add: writes_def)

lemma dict_not_leaf_path:
  "node_at t p = Some (DDict m) \<Longrightarrow> node_at t q = Some x \<Longrightarrow> is_leaf x \<Longrightarrow> p \<noteq> q"
  by (cases x) auto

lemma writes_append:
  assumes ok: "tree_ok h (Ref root) t"
  shows "writes h (h @ [d]) root t p"
proof -
  have fr: "descend (h @ [d]) (Ref root) q = descend h (Ref root) q" if "node_at t q = Some y" for q y
  proof (rule descend_frame[where Q = "\<lambda>q. node_at t q \<noteq> None"])
    fix p j
    assume "node_at t (p @ [j]) \<noteq> None"
    then show "node_at t p \<noteq> None" by (auto dest: node_at_snoc_Some)
  next
    fix p j a
    assume Q: "node_at t (p @ [j]) \<noteq> None" and d: "descend h (Ref root) p = Inr (Ref a)"
    from Q obtain m where p: "node_at t p = Some (DDict m)" by (auto dest: node_at_snoc_Some)
    from tree_okD_dict[OF ok p] d have "a < length h" by auto
    then show "a < length h \<and> a < length (h @ [d]) \<and> map_of ((h @ [d]) ! a) j = map_of (h ! a) j"
      by (simp add: nth_append)
  next
    show "node_at t q \<noteq> None" using that by simp
  qed
  have ok': "tree_ok (h @ [d]) (Ref root) t"
    unfolding tree_ok_def
  proof (intro conjI allI impI)
    fix p m
    assume p: "node_at t p = Some (DDict m)"
    from tree_okD_dict[OF ok p] fr[OF p]
    show "\<exists>a. descend (h @ [d]) (Ref root) p = Inr (Ref a) \<and> a < length (h @ [d])
        \<and> map fst ((h @ [d]) ! a) = map fst m"
      by (auto simp: nth_append)
  next
    fix p x
    assume "node_at t p = Some x \<and> is_leaf x"
    with tree_okD_leaf[OF ok, of p x] fr[of p x]
    show "\<exists>u. descend (h @ [d]) (Ref root) p = Inr u" by auto
  next
    fix p q m m' a
    assume "node_at t p = Some (DDict m) \<and> node_at t q = Some (DDict m')
      \<and> descend (h @ [d]) (Ref root) p = Inr (Ref a) \<and> descend (h @ [d]) (Ref root) q = Inr (Ref a)"
    then have p: "node_at t p = Some (DDict m)" and q: "node_at t q = Some (DDict m')"
      and dp: "descend (h @ [d]) (Ref root) p = Inr (Ref a)"
      and dq: "descend (h @ [d]) (Ref root) q = Inr (Ref a)" by blast+
    from fr[OF p] dp have dp': "descend h (Ref root) p = Inr (Ref a)" by simp
    from fr[OF q] dq have dq': "descend h (Ref root) q = Inr (Ref a)" by simp
    show "p = q" by (rule tree_okD_inj[OF ok p q dp' dq'])
  qed
  have wr: "wrapper_ok (h @ [d]) w name root t" if "wrapper_ok h w name root t" for w name
    using that fr unfolding wrapper_ok_def by (auto simp: nth_append)
  from ok' fr wr show ?thesis unfolding writes_def by blast
qed

lemma wrapper_new:
  assumes ok: "tree_ok h (Ref root) t"
  shows "wrapper_ok (h @ [[(name, Ref root)]]) (length h) name root t"
proof -
  from writes_append[OF ok, of "[(name, Ref root)]" "[]"]
  have ok': "tree_ok (h @ [[(name, Ref root)]]) (Ref root) t"
    and fr: "\<And>q y. node_at t q = Some y \<Longrightarrow> q \<noteq> [] \<Longrightarrow>
       descend (h @ [[(name, Ref root)]]) (Ref root) q = descend h (Ref root) q"
    by (auto simp: writes_def)
  have "descend (h @ [[(name, Ref root)]]) (Ref root) p \<noteq> Inr (Ref (length h))"
    if p: "node_at t p = Some (DDict m)" for p m
  proof (cases "p = []")
    case True
    with tree_okD_dict[OF ok p] show ?thesis by auto
  next
    case False
    with fr[OF p] tree_okD_dict[OF ok p] show ?thesis by auto
  qed
  then show ?thesis by (simp add: wrapper_ok_def)
qed

text \<open>The write-through of a flag of the tree succeeds and changes one leaf.\<close>

lemma write_through:
  assumes ok: "tree_ok h (Ref root) t" and w: "wrapper_ok h w name root t"
    and leaf: "node_at t p = Some x" "is_leaf x" and ne: "p \<noteq> []"
  shows "\<exists>h'. update_shared_dict h w (name # p) v = Inr h' \<and> writes h h' root t p
      \<and> descend h' (Ref root) p = Inr v \<and> length h' = length h"
proof -
  from ne obtain c k where p: "p = c @ [k]" by (metis rev_exhaust)
  from tree_update[OF ok leaf(1)[unfolded p] leaf(2), of v] obtain a m where
    a: "descend h (Ref root) c = Inr (Ref a)" "a < length h"
    and ok': "tree_ok (h[a := AList.update k v (h ! a)]) (Ref root) t"
    and new: "descend (h[a := AList.update k v (h ! a)]) (Ref root) (c @ [k]) = Inr v"
    and fr: "\<And>q y. node_at t q = Some y \<Longrightarrow> q \<noteq> c @ [k] \<Longrightarrow>
        descend (h[a := AList.update k v (h ! a)]) (Ref root) q = descend h (Ref root) q"
    and c: "node_at t c = Some (DDict m)"
    by blast
  let ?h' = "h[a := AList.update k v (h ! a)]"
  from w have wl: "w < length h" and wc: "h ! w = [(name, Ref root)]" by (auto simp: wrapper_ok_def)
  have sub: "subscript h (Ref w) name = Inr (Ref root)" using wl wc by (simp add: subscript_Ref)
  have upd: "update_shared_dict h w (name # p) v = Inr ?h'"
    using sub a by (simp add: update_shared_dict_def p setitem_def)
  have wr: "wrapper_ok ?h' w' name' root t" if w': "wrapper_ok h w' name' root t" for w' name'
  proof -
    from w' c a(1) have "a \<noteq> w'" by (auto simp: wrapper_ok_def)
    moreover have "descend ?h' (Ref root) q \<noteq> Inr (Ref w')" if q: "node_at t q = Some (DDict m')" for q m'
    proof -
      have "q \<noteq> c @ [k]" using dict_not_leaf_path[OF q leaf(1) leaf(2)] p by simp
      with fr[OF q] w' q show ?thesis by (auto simp: wrapper_ok_def)
    qed
    ultimately show ?thesis using w' by (auto simp: wrapper_ok_def)
  qed
  have "writes h ?h' root t p" unfolding writes_def using ok' fr wr p by blast
  with upd new p show ?thesis by auto
qed

lemma leaf_ok_node: "leaf_ok E st fv name root t p \<Longrightarrow> \<exists>x. node_at t p = Some x \<and> is_leaf x"
  unfolding leaf_ok_def by auto

lemma leaf_ok_registered:
  "leaf_ok E st fv name root t p \<Longrightarrow> registries st fv (join SEPARATOR (name # p)) \<noteq> None"
  unfolding leaf_ok_def by auto

lemma read_value_append:
  "read_value ls e = Some v \<Longrightarrow> read_value (ls @ ys) e = Some v"
  by (auto simp: read_value_def nth_append split: entry.splits if_splits)

lemma fresh_append: "fresh x ls f \<Longrightarrow> fresh x (ls @ ys) f"
  by (auto simp: fresh_def dest: read_value_append)

lemma leaf_ok_step:
  assumes l: "leaf_ok E st fv name root t q"
    and w: "writes (heap st) (heap st') root t p" and ne: "q \<noteq> p"
    and reg: "registries st' fv (join SEPARATOR (name # q)) = registries st fv (join SEPARATOR (name # q))"
    and keep: "\<And>x f. E x (lists st) f \<Longrightarrow> E x (lists st') f"
  shows "leaf_ok E st' fv name root t q"
proof -
  from l obtain x f it where
    x: "node_at t q = Some x"
    and r: "x = DItem it \<and> registries st fv (join SEPARATOR (name # q)) = Some (ItemFlag f)
           \<or> x = DMultiItem it \<and> registries st fv (join SEPARATOR (name # q)) = Some (MultiFlag f)"
    and rest: "f_parser f = parser it" "f_namespace f = name # q"
      "wrapper_ok (heap st) (f_shared_dict f) name root t"
      "descend (heap st) (Ref root) q = Inr (f_value f)" "E x (lists st) f"
    unfolding leaf_ok_def by blast
  from w rest(3) have w': "wrapper_ok (heap st') (f_shared_dict f) name root t"
    by (auto simp: writes_def)
  from w x ne rest(4) have d': "descend (heap st') (Ref root) q = Inr (f_value f)"
    by (auto simp: writes_def)
  from keep[OF rest(5)] have E': "E x (lists st') f" .
  from x r rest(1,2) w' d' E' reg show ?thesis unfolding leaf_ok_def by auto
qed

lemma inv_step:
  assumes i: "installed E st fv name root t S"
    and w: "writes (heap st) (heap st') root t p"
    and reg: "\<And>q. q \<in> S \<Longrightarrow> q \<noteq> p \<Longrightarrow>
       registries st' fv (join SEPARATOR (name # q)) = registries st fv (join SEPARATOR (name # q))"
    and keep: "\<And>x f. E x (lists st) f \<Longrightarrow> E x (lists st') f"
    and p: "p \<in> S \<Longrightarrow> leaf_ok E st' fv name root t p"
  shows "installed E st' fv name root t S"
  unfolding installed_def
proof (intro conjI ballI)
  from w show "tree_ok (heap st') (Ref root) t" by (simp add: writes_def)
next
  fix q assume q: "q \<in> S"
  show "leaf_ok E st' fv name root t q"
  proof (cases "q = p")
    case True
    with p q show ?thesis by simp
  next
    case False
    from i q have "leaf_ok E st fv name root t q" by (simp add: installed_def)
    from leaf_ok_step[OF this w False reg[OF q False] keep] show ?thesis .
  qed
qed

text \<open>The definition of one leaf: its flag is constructed on a new one-entry
  dictionary, writes its default through, and is registered.\<close>

lemma define_leaf:
  assumes i: "installed E st fv name root t S"
    and leaf: "node_at t p = Some x" "is_leaf x" and ne: "p \<noteq> []"
    and upd: "update_shared_dict (heap st @ [[(name, Ref root)]]) (length (heap st)) (name # p) d
        = Inr h'"
    and f: "f = (new_flag (length (heap st)) (name # p) pr (join SEPARATOR (name # p)) d)
        \<lparr>f_value := d\<rparr>"
    and fl: "x = DItem it \<and> fl = ItemFlag f \<or> x = DMultiItem it \<and> fl = MultiFlag f"
    and pr: "pr = parser it"
    and E: "E x ls' f"
    and keep: "\<And>x f. E x (lists st) f \<Longrightarrow> E x ls' f"
    and reg: "DEFINE_flag (st\<lparr>heap := h', lists := ls'\<rparr>) fv fl = (Inr (), st')"
  shows "installed E st' fv name root t (insert p S)
    \<and> (\<forall>q\<in>S. descend (heap st') (Ref root) q = descend (heap st) (Ref root) q)
    \<and> descend (heap st') (Ref root) p = Inr d \<and> lists st' = ls'"
proof -
  let ?h = "heap st" and ?hw = "heap st @ [[(name, Ref root)]]" and ?w = "length (heap st)"
  let ?n = "join SEPARATOR (name # p)"
  from i have ok: "tree_ok ?h (Ref root) t" by (simp add: installed_def)
  have w1: "writes ?h ?hw root t p" by (rule writes_append[OF ok])
  then have okw: "tree_ok ?hw (Ref root) t" by (simp add: writes_def)
  have wn: "wrapper_ok ?hw ?w name root t" by (rule wrapper_new[OF ok])
  from write_through[OF okw wn leaf ne, of d] upd
  have w2: "writes ?hw h' root t p" and new: "descend h' (Ref root) p = Inr d" by auto
  from writes_trans[OF w1 w2] have w: "writes ?h h' root t p" .
  from w2 wn have wn': "wrapper_ok h' ?w name root t" by (auto simp: writes_def)
  have nm: "name_of fl = ?n" using fl f by (auto simp: new_flag_def)
  from reg nm have none: "registries st fv ?n = None"
    and st': "st' = register (st\<lparr>heap := h', lists := ls'\<rparr>) fv ?n fl"
    by (auto simp: DEFINE_flag_def split: if_splits)
  have hp: "heap st' = h'" by (simp add: st' register_def)
  have lp: "lists st' = ls'" by (simp add: st' register_def)
  have regp: "registries st' fv ?n = Some fl" by (simp add: st' register_def)
  have rego: "registries st' fv n = registries st fv n" if "n \<noteq> ?n" for n
    using that by (simp add: st' register_def)
  have pS: "p \<notin> S"
  proof
    assume "p \<in> S"
    with i have "leaf_ok E st fv name root t p" by (simp add: installed_def)
    from leaf_ok_registered[OF this] none show False by simp
  qed
  have old: "installed E st' fv name root t S"
  proof (rule inv_step[OF i, of st' p])
    show "writes (heap st) (heap st') root t p" using w hp by simp
  next
    fix q assume q: "q \<in> S" "q \<noteq> p"
    with i have "leaf_ok E st fv name root t q" by (simp add: installed_def)
    from leaf_ok_registered[OF this] none have "join SEPARATOR (name # q) \<noteq> ?n" by auto
    from rego[OF this]
    show "registries st' fv (join SEPARATOR (name # q)) = registries st fv (join SEPARATOR (name # q))" .
  next
    fix y g assume "E y (lists st) g"
    from keep[OF this] show "E y (lists st') g" by (simp add: lp)
  next
    assume "p \<in> S" with pS show "leaf_ok E st' fv name root t p" by simp
  qed
  have "leaf_ok E st' fv name root t p"
    unfolding leaf_ok_def
    using leaf fl regp pr f wn' new E hp lp
    by (intro exI[of _ x] exI[of _ f] exI[of _ it]) (auto simp: new_flag_def)
  with old have "installed E st' fv name root t (insert p S)" by (simp add: installed_def)
  moreover have "\<forall>q\<in>S. descend (heap st') (Ref root) q = descend (heap st) (Ref root) q"
  proof
    fix q assume q: "q \<in> S"
    with pS have "q \<noteq> p" by auto
    moreover from i q obtain y where "node_at t q = Some y"
      by (auto simp: installed_def dest: leaf_ok_node)
    ultimately show "descend (heap st') (Ref root) q = descend (heap st) (Ref root) q"
      using w hp by (auto simp: writes_def)
  qed
  ultimately show ?thesis using new hp lp by simp
qed

text \<open>The value of a new flag is data or a new list, so no leaf shares it.\<close>

lemma unshared_insert:
  assumes i: "installed E st fv name root t S" and u: "unshared st root S"
    and r: "\<And>x f. E x (lists st) f \<Longrightarrow> \<exists>v. read_value (lists st) (f_value f) = Some v"
    and fr: "\<forall>q\<in>S. descend (heap st') (Ref root) q = descend (heap st) (Ref root) q"
    and d: "descend (heap st') (Ref root) p = Inr d"
    and new: "\<forall>l. d = ListRef l \<longrightarrow> length (lists st) \<le> l"
  shows "unshared st' root (insert p S)"
proof -
  have old: "l < length (lists st)"
    if q: "q \<in> S" and dq: "descend (heap st) (Ref root) q = Inr (ListRef l)" for q l
  proof -
    from i q have "leaf_ok E st fv name root t q" by (simp add: installed_def)
    then obtain x f where "descend (heap st) (Ref root) q = Inr (f_value f)" "E x (lists st) f"
      unfolding leaf_ok_def by blast
    with dq r[of x f] show ?thesis
      by (auto simp: read_value_def split: if_splits)
  qed
  show ?thesis
    unfolding unshared_def
  proof (intro ballI allI impI)
    fix a b l
    assume a: "a \<in> insert p S" and b: "b \<in> insert p S"
      and ab: "descend (heap st') (Ref root) a = Inr (ListRef l)
        \<and> descend (heap st') (Ref root) b = Inr (ListRef l)"
    show "a = b"
    proof (cases "a = p")
      case True
      show ?thesis
      proof (cases "b = p")
        case True
        with \<open>a = p\<close> show ?thesis by simp
      next
        case False
        with b have bS: "b \<in> S" by simp
        with fr ab have "descend (heap st) (Ref root) b = Inr (ListRef l)" by simp
        from old[OF bS this] True ab d new show ?thesis by auto
      qed
    next
      case False
      with a have aS: "a \<in> S" by simp
      with fr ab have da: "descend (heap st) (Ref root) a = Inr (ListRef l)" by simp
      show ?thesis
      proof (cases "b = p")
        case True
        from old[OF aS da] True ab d new show ?thesis by auto
      next
        case False
        with b have bS: "b \<in> S" by simp
        with fr ab have "descend (heap st) (Ref root) b = Inr (ListRef l)" by simp
        with u aS bS da show ?thesis unfolding unshared_def by blast
      qed
    qed
  qed
qed

lemma fresh_readable: "fresh x ls f \<Longrightarrow> \<exists>v. read_value ls (f_value f) = Some v"
  by (auto simp: fresh_def)

lemma new_value_read: "new_value ls v = (d, ls') \<Longrightarrow> read_value ls' d = Some v"
  by (auto simp: new_value_def read_value_def split: pyval.splits)

lemma new_value_append: "new_value ls v = (d, ls') \<Longrightarrow> \<exists>ys. ls' = ls @ ys"
  by (auto simp: new_value_def split: pyval.splits)

lemma new_value_new: "new_value ls v = (d, ls') \<Longrightarrow> d = ListRef l \<Longrightarrow> length ls \<le> l"
  by (auto simp: new_value_def split: pyval.splits)

lemma Item_define_inv:
  assumes i: "installed fresh st fv name root t S" and u: "unshared st root S"
    and leaf: "node_at t p = Some (DItem it)" and ne: "p \<noteq> []"
    and run: "recursively_define_flags name root fv st (name # p) (DItem it) = (Inr (), st')"
  shows "installed fresh st' fv name root t (insert p S) \<and> unshared st' root (insert p S)"
proof -
  let ?hw = "heap st @ [[(name, Ref root)]]" and ?w = "length (heap st)"
  let ?n = "join SEPARATOR (name # p)"
  from run obtain f h' ls' where
    init: "ItemFlag_init ?hw (lists st) ?w (name # p) (parser it) ?n (default it) = Inr (f, h', ls')"
    and reg: "DEFINE_flag (st\<lparr>heap := h', lists := ls'\<rparr>) fv (ItemFlag f) = (Inr (), st')"
    by (auto simp: Item_define_def split: sum.splits prod.splits)
  from init obtain v d where
    v: "(if default it = PNone then Inr PNone else Flag__parse (parser it) (default it)) = Inr v"
    and nv: "new_value (lists st) v = (d, ls')"
    and sv: "set_value ?hw (new_flag ?w (name # p) (parser it) ?n d) d = (Inr (), f, h')"
    by (auto simp: ItemFlag_init_def split: sum.splits prod.splits)
  from sv have f: "f = (new_flag ?w (name # p) (parser it) ?n d)\<lparr>f_value := d\<rparr>"
    and upd: "update_shared_dict ?hw ?w (name # p) d = Inr h'"
    by (auto simp: set_value_def Let_def new_flag_def split: sum.splits)
  have c: "constructed (DItem it) v" using v by (auto split: if_splits)
  have E: "fresh (DItem it) ls' f"
    using c new_value_read[OF nv] f by (auto simp: fresh_def new_flag_def)
  from new_value_append[OF nv] obtain ys where ys: "ls' = lists st @ ys" by blast
  have "installed fresh st' fv name root t (insert p S)
    \<and> (\<forall>q\<in>S. descend (heap st') (Ref root) q = descend (heap st) (Ref root) q)
    \<and> descend (heap st') (Ref root) p = Inr d \<and> lists st' = ls'"
  proof (rule define_leaf[OF i leaf _ ne upd f _ refl E _ reg])
    show "is_leaf (DItem it)" by simp
  next
    show "DItem it = DItem it \<and> ItemFlag f = ItemFlag f
        \<or> DItem it = DMultiItem it \<and> ItemFlag f = MultiFlag f" by simp
  next
    fix y g assume "fresh y (lists st) g"
    then show "fresh y ls' g" unfolding ys by (rule fresh_append)
  qed
  then have i': "installed fresh st' fv name root t (insert p S)"
    and fr: "\<forall>q\<in>S. descend (heap st') (Ref root) q = descend (heap st) (Ref root) q"
    and dp: "descend (heap st') (Ref root) p = Inr d" by simp_all
  have r: "\<exists>v. read_value (lists st) (f_value g) = Some v" if "fresh y (lists st) g" for y g
    using that by (rule fresh_readable)
  have new: "\<forall>l. d = ListRef l \<longrightarrow> length (lists st) \<le> l"
    using new_value_new[OF nv] by blast
  from unshared_insert[OF i u r fr dp new] i' show ?thesis by simp
qed

lemma MultiItem_define_inv:
  assumes i: "installed fresh st fv name root t S" and u: "unshared st root S"
    and leaf: "node_at t p = Some (DMultiItem it)" and ne: "p \<noteq> []"
    and run: "recursively_define_flags name root fv st (name # p) (DMultiItem it) = (Inr (), st')"
  shows "installed fresh st' fv name root t (insert p S) \<and> unshared st' root (insert p S)"
proof -
  let ?hw = "heap st @ [[(name, Ref root)]]" and ?w = "length (heap st)"
  let ?n = "join SEPARATOR (name # p)"
  from run obtain f h' ls' where
    init: "MultiFlag_init ?hw (lists st) ?w (name # p) (parser it) ?n (default it) = Inr (f, h', ls')"
    and reg: "DEFINE_flag (st\<lparr>heap := h', lists := ls'\<rparr>) fv (MultiFlag f) = (Inr (), st')"
    by (auto simp: MultiItem_define_def split: sum.splits prod.splits)
  from init obtain d where
    d: "(if default it = PNone then Inr (Val PNone, lists st)
         else (case MultiFlag__parse (parser it) (default it) of
                 Inl e \<Rightarrow> Inl e
               | Inr vs \<Rightarrow> Inr (ListRef (length (lists st)), lists st @ [vs]))) = Inr (d, ls')"
    and sv: "set_value ?hw (new_flag ?w (name # p) (parser it) ?n d) d = (Inr (), f, h')"
    by (auto simp: MultiFlag_init_def split: sum.splits prod.splits)
  from sv have f: "f = (new_flag ?w (name # p) (parser it) ?n d)\<lparr>f_value := d\<rparr>"
    and upd: "update_shared_dict ?hw ?w (name # p) d = Inr h'"
    by (auto simp: set_value_def Let_def new_flag_def split: sum.splits)
  have E: "fresh (DMultiItem it) ls' f"
    using d f by (auto simp: fresh_def new_flag_def read_value_def split: if_splits sum.splits)
  from d obtain ys where ys: "ls' = lists st @ ys"
    by (auto split: if_splits sum.splits)
  from d have new: "\<forall>l. d = ListRef l \<longrightarrow> length (lists st) \<le> l"
    by (auto split: if_splits sum.splits)
  have "installed fresh st' fv name root t (insert p S)
    \<and> (\<forall>q\<in>S. descend (heap st') (Ref root) q = descend (heap st) (Ref root) q)
    \<and> descend (heap st') (Ref root) p = Inr d \<and> lists st' = ls'"
  proof (rule define_leaf[OF i leaf _ ne upd f _ refl E _ reg])
    show "is_leaf (DMultiItem it)" by simp
  next
    show "DMultiItem it = DItem it \<and> MultiFlag f = ItemFlag f
        \<or> DMultiItem it = DMultiItem it \<and> MultiFlag f = MultiFlag f" by simp
  next
    fix y g assume "fresh y (lists st) g"
    then show "fresh y ls' g" unfolding ys by (rule fresh_append)
  qed
  then have i': "installed fresh st' fv name root t (insert p S)"
    and fr: "\<forall>q\<in>S. descend (heap st') (Ref root) q = descend (heap st) (Ref root) q"
    and dp: "descend (heap st') (Ref root) p = Inr d" by simp_all
  have r: "\<exists>v. read_value (lists st) (f_value g) = Some v" if "fresh y (lists st) g" for y g
    using that by (rule fresh_readable)
  from unshared_insert[OF i u r fr dp new] i' show ?thesis by simp
qed

lemma leaves_leaf: "is_leaf x \<Longrightarrow> leaves x = {[]}"
  unfolding leaves_def by (cases x) (auto dest: node_at_leaf[rotated] intro: exI[of _ "[]"])

lemma leaves_DDict:
  assumes "distinct (map fst m)"
  shows "leaves (DDict m) = {k # q | k v q. (k, v) \<in> set m \<and> q \<in> leaves v}"
proof -
  have "p \<in> leaves (DDict m) \<longleftrightarrow> (\<exists>k v q. p = k # q \<and> (k, v) \<in> set m \<and> q \<in> leaves v)" for p
  proof (cases p)
    case Nil
    then show ?thesis by (simp add: leaves_def)
  next
    case (Cons k q)
    have "map_of m k = Some v \<longleftrightarrow> (k, v) \<in> set m" for v
      using assms by simp
    then have "(\<exists>x. node_at (DDict m) (k # q) = Some x \<and> is_leaf x)
        \<longleftrightarrow> (\<exists>v. (k, v) \<in> set m \<and> (\<exists>x. node_at v q = Some x \<and> is_leaf x))"
      by (cases "map_of m k") (auto, metis)
    with Cons show ?thesis by (simp add: leaves_def)
  qed
  then show ?thesis by blast
qed

lemma leaves_DOther: "leaves (DOther s) = {}"
  unfolding leaves_def
proof -
  have "\<not> (\<exists>x. node_at (DOther s) p = Some x \<and> is_leaf x)" for p
    by (cases p) auto
  then show "{p. \<exists>x. node_at (DOther s) p = Some x \<and> is_leaf x} = {}" by simp
qed

lemma unshared_empty: "unshared st root {}"
  by (simp add: unshared_def)

lemma define_inv:
  "installed fresh st fv name root t S \<and> unshared st root S \<Longrightarrow> ns = name # p \<Longrightarrow>
     node_at t p = Some x \<Longrightarrow>
     distinct_keys x \<Longrightarrow> \<not> is_leaf t \<Longrightarrow>
     recursively_define_flags name root fv st ns x = (Inr (), st') \<Longrightarrow>
     installed fresh st' fv name root t (S \<union> {p @ q | q. q \<in> leaves x})
     \<and> unshared st' root (S \<union> {p @ q | q. q \<in> leaves x})"
  "installed fresh st2 fv name root t S2 \<and> unshared st2 root S2 \<Longrightarrow> ns2 = name # p2 \<Longrightarrow>
     (\<forall>kv\<in>set rest. node_at t (p2 @ [fst kv]) = Some (snd kv) \<and> distinct_keys (snd kv)) \<Longrightarrow>
     \<not> is_leaf t \<Longrightarrow>
     define_items name root fv st2 ns2 rest = (Inr (), st3) \<Longrightarrow>
     installed fresh st3 fv name root t (S2 \<union> {p2 @ k # q | k v q. (k, v) \<in> set rest \<and> q \<in> leaves v})
     \<and> unshared st3 root (S2 \<union> {p2 @ k # q | k v q. (k, v) \<in> set rest \<and> q \<in> leaves v})"
proof (induction name root fv st ns x and name root fv st2 ns2 rest
    arbitrary: S p st' and S2 p2 st3
    rule: recursively_define_flags_define_items.induct)
  case (1 name shared_dict fv st namespace m)
  from "1.prems"(4) have dm: "distinct (map fst m)"
    and sub: "\<forall>kv\<in>set m. distinct_keys (snd kv)" by (auto simp: list_all_iff)
  have nodes: "\<forall>kv\<in>set m. node_at t (p @ [fst kv]) = Some (snd kv) \<and> distinct_keys (snd kv)"
  proof
    fix kv assume kv: "kv \<in> set m"
    with dm have "map_of m (fst kv) = Some (snd kv)" by (cases kv) simp
    with "1.prems"(3) sub kv
    show "node_at t (p @ [fst kv]) = Some (snd kv) \<and> distinct_keys (snd kv)"
      by (simp add: node_at_append)
  qed
  from "1.prems"(6) have run: "define_items name shared_dict fv st namespace m = (Inr (), st')"
    by simp
  have eq: "{p @ k # q | k v q. (k, v) \<in> set m \<and> q \<in> leaves v}
      = {p @ q | q. q \<in> leaves (DDict m)}"
    unfolding leaves_DDict[OF dm] by blast
  from "1.IH"[OF "1.prems"(1,2) nodes "1.prems"(5) run]
  show ?case unfolding eq .
next
  case (2 name shared_dict fv st namespace it)
  from "2.prems"(3,5) have ne: "p \<noteq> []" by (cases p) auto
  from "2.prems"(6,2) have run:
    "recursively_define_flags name shared_dict fv st (name # p) (DItem it) = (Inr (), st')"
    by simp
  from "2.prems"(1) have i: "installed fresh st fv name shared_dict t S"
    and u: "unshared st shared_dict S" by simp_all
  from Item_define_inv[OF i u "2.prems"(3) ne run]
  show ?case by (simp add: leaves_leaf)
next
  case (3 name shared_dict fv st namespace it)
  from "3.prems"(3,5) have ne: "p \<noteq> []" by (cases p) auto
  from "3.prems"(6,2) have run:
    "recursively_define_flags name shared_dict fv st (name # p) (DMultiItem it) = (Inr (), st')"
    by simp
  from "3.prems"(1) have i: "installed fresh st fv name shared_dict t S"
    and u: "unshared st shared_dict S" by simp_all
  from MultiItem_define_inv[OF i u "3.prems"(3) ne run]
  show ?case by (simp add: leaves_leaf)
next
  case (4 name shared_dict fv st namespace type_name)
  then show ?case by simp
next
  case (5 name shared_dict fv st namespace)
  then show ?case by simp
next
  case (6 name shared_dict fv st namespace key v rest)
  from "6.prems"(5) obtain st1 where
    r1: "recursively_define_flags name shared_dict fv st (namespace @ [key]) v = (Inr (), st1)"
    and r2: "define_items name shared_dict fv st1 namespace rest = (Inr (), st3)"
    by (auto split: prod.splits sum.splits)
  from "6.prems"(3) have nv: "node_at t (p2 @ [key]) = Some v" and dv: "distinct_keys v"
    and rest: "\<forall>kv\<in>set rest. node_at t (p2 @ [fst kv]) = Some (snd kv) \<and> distinct_keys (snd kv)"
    by auto
  have ns: "namespace @ [key] = name # (p2 @ [key])" using "6.prems"(2) by simp
  let ?S1 = "S2 \<union> {(p2 @ [key]) @ q | q. q \<in> leaves v}"
  from "6.IH"(1)[OF "6.prems"(1) ns nv dv "6.prems"(4) r1]
  have i1: "installed fresh st1 fv name shared_dict t ?S1 \<and> unshared st1 shared_dict ?S1" .
  have eq: "?S1 \<union> {p2 @ k # q | k v q. (k, v) \<in> set rest \<and> q \<in> leaves v}
      = S2 \<union> {p2 @ k # q | k va q. (k, va) \<in> set ((key, v) # rest) \<and> q \<in> leaves va}"
    by auto
  from "6.IH"(2)[OF r1[symmetric] refl i1 "6.prems"(2) rest "6.prems"(4) r2]
  show ?case unfolding eq .
qed

lemma define_flags_inv:
  assumes d: "distinct_keys (DDict m)"
    and run: "define_flags st0 name m fv = (Inr root, st1)"
  shows "installed fresh st1 fv name root (DDict m) (leaves (DDict m))
    \<and> unshared st1 root (leaves (DDict m))"
proof -
  from run obtain h' where
    ex: "extract_defaults (heap st0) m = Inr (root, h')"
    and items: "define_items name root fv (st0\<lparr>heap := h'\<rparr>) [name] m = (Inr (), st1)"
    by (auto simp: define_flags_def simp del: extract_defaults.simps
        split: sum.splits prod.splits)
  from extract_built(1)[OF d ex] have "built h' (Ref root) (DDict m) (length (heap st0))"
    by blast
  then have "tree_ok h' (Ref root) (DDict m)"
    by (simp add: built_def)
  then have i0: "installed fresh (st0\<lparr>heap := h'\<rparr>) fv name root (DDict m) {}
      \<and> unshared (st0\<lparr>heap := h'\<rparr>) root {}"
    by (simp add: installed_def unshared_empty)
  from d have dm: "distinct (map fst m)"
    and sub: "\<forall>kv\<in>set m. distinct_keys (snd kv)" by (auto simp: list_all_iff)
  have nodes: "\<forall>kv\<in>set m. node_at (DDict m) ([] @ [fst kv]) = Some (snd kv) \<and> distinct_keys (snd kv)"
  proof
    fix kv assume kv: "kv \<in> set m"
    with dm have "map_of m (fst kv) = Some (snd kv)" by (cases kv) simp
    with sub kv
    show "node_at (DDict m) ([] @ [fst kv]) = Some (snd kv) \<and> distinct_keys (snd kv)"
      by simp
  qed
  have nl: "\<not> is_leaf (DDict m)" by simp
  from define_inv(2)[OF i0 refl nodes nl items]
  have "installed fresh st1 fv name root (DDict m)
     ({} \<union> {[] @ k # q | k v q. (k, v) \<in> set m \<and> q \<in> leaves v})
     \<and> unshared st1 root ({} \<union> {[] @ k # q | k v q. (k, v) \<in> set m \<and> q \<in> leaves v})" .
  then show ?thesis unfolding leaves_DDict[OF dm] by simp
qed

lemma inv_weaken: "installed fresh st fv name root t S \<Longrightarrow> installed any_flag st fv name root t S"
  unfolding installed_def leaf_ok_def any_flag_def by blast



lemma leaf_paths_leaves: "distinct_keys t \<Longrightarrow> set (leaf_paths t) = leaves t"
proof (induction t)
  case (DItem x)
  then show ?case by (simp add: leaves_leaf)
next
  case (DMultiItem x)
  then show ?case by (simp add: leaves_leaf)
next
  case (DDict m)
  from DDict.prems have dm: "distinct (map fst m)"
    and sub: "\<forall>kv\<in>set m. distinct_keys (snd kv)" by (auto simp: list_all_iff)
  have ih: "set (leaf_paths v) = leaves v" if "(k, v) \<in> set m" for k v
    using DDict.IH[of "(k, v)" v] that sub by auto
  have "set (leaf_paths (DDict m)) = {k # q | k v q. (k, v) \<in> set m \<and> q \<in> set (leaf_paths v)}"
    by (auto simp: image_iff)
  also have "\<dots> = {k # q | k v q. (k, v) \<in> set m \<and> q \<in> leaves v}"
    using ih by blast
  finally show ?case by (simp add: leaves_DDict[OF dm])
next
  case (DOther x)
  then show ?case by (simp add: leaves_DOther)
qed

lemma set_value_step:
  assumes ok: "tree_ok h (Ref root) t" and w: "wrapper_ok h (f_shared_dict f) name root t"
    and ns: "f_namespace f = name # p"
    and leaf: "node_at t p = Some x" "is_leaf x" and ne: "p \<noteq> []"
  shows "\<exists>h'. set_value h f v = (Inr (), f\<lparr>f_value := v\<rparr>, h')
      \<and> flag_step root t p h f h' (f\<lparr>f_value := v\<rparr>)"
proof -
  from write_through[OF ok w leaf ne, of v] obtain h' where
    "update_shared_dict h (f_shared_dict f) (name # p) v = Inr h'" "writes h h' root t p"
    "descend h' (Ref root) p = Inr v" by blast
  then show ?thesis using ns by (simp add: set_value_def flag_step_def)
qed

lemma rewrite_step:
  assumes s: "flag_step root t p h f h1 f1"
    and w: "wrapper_ok h (f_shared_dict f) name root t"
    and ns: "f_namespace f = name # p"
    and leaf: "node_at t p = Some x" "is_leaf x" and ne: "p \<noteq> []"
    and f2: "f_namespace f2 = f_namespace f1" "f_shared_dict f2 = f_shared_dict f1"
      "f_parser f2 = f_parser f1"
  shows "\<exists>h2. update_shared_dict h1 (f_shared_dict f2) (f_namespace f2) (f_value f2) = Inr h2
      \<and> flag_step root t p h f h2 f2"
proof -
  from s have w1: "writes h h1 root t p" and eq: "f_namespace f1 = f_namespace f"
    "f_shared_dict f1 = f_shared_dict f" "f_parser f1 = f_parser f"
    by (auto simp: flag_step_def)
  from w1 have ok1: "tree_ok h1 (Ref root) t" by (simp add: writes_def)
  from w1 w have ww: "wrapper_ok h1 (f_shared_dict f) name root t" by (auto simp: writes_def)
  from write_through[OF ok1 ww leaf ne, of "f_value f2"] obtain h2 where
    u: "update_shared_dict h1 (f_shared_dict f) (name # p) (f_value f2) = Inr h2"
    and w2: "writes h1 h2 root t p" and d: "descend h2 (Ref root) p = Inr (f_value f2)"
    by blast
  from writes_trans[OF w1 w2] u d f2 eq ns show ?thesis by (simp add: flag_step_def)
qed

lemma flag_step_refl:
  "tree_ok h (Ref root) t \<Longrightarrow> descend h (Ref root) p = Inr (f_value f) \<Longrightarrow>
     flag_step root t p h f h f"
  by (simp add: flag_step_def writes_refl)

lemma list_step_refl: "list_step ls f ls f"
  by (simp add: list_step_def)

lemma list_step_present: "list_step ls f ls' f' \<Longrightarrow> list_step ls f ls' (f'\<lparr>f_present := n\<rparr>)"
  by (simp add: list_step_def)

lemma new_value_step:
  "new_value ls v = (x, ls') \<Longrightarrow> list_step ls f ls' (f\<lparr>f_value := x\<rparr>)"
  by (auto simp: new_value_def list_step_def read_value_def nth_append split: pyval.splits)

text \<open>An override of an \<open>_ItemFlag\<close>.\<close>

lemma ItemFlag_parse_step:
  assumes ok: "tree_ok h (Ref root) t" and w: "wrapper_ok h (f_shared_dict f) name root t"
    and ns: "f_namespace f = name # p"
    and leaf: "node_at t p = Some x" "is_leaf x" and ne: "p \<noteq> []"
    and cur: "descend h (Ref root) p = Inr (f_value f)"
  shows "\<exists>r f' h' ls'. ItemFlag_parse h ls f arg = (r, f', h', ls')
      \<and> flag_step root t p h f h' f' \<and> list_step ls f ls' f'
      \<and> (case Flag__parse (f_parser f) arg of
            Inl e \<Rightarrow> r = Inl e \<and> f' = f \<and> h' = h \<and> ls' = ls
          | Inr v \<Rightarrow> r = Inr () \<and> read_value ls' (f_value f') = Some v
               \<and> f_present f' = f_present f + 1)"
proof (cases "Flag__parse (f_parser f) arg")
  case (Inl e)
  then show ?thesis
    using flag_step_refl[OF ok cur] list_step_refl by (simp add: ItemFlag_parse_def)
next
  case (Inr v)
  obtain d ls1 where nv: "new_value ls v = (d, ls1)" by (cases "new_value ls v")
  from set_value_step[OF ok w ns leaf ne, of d] obtain h1 where
    sv: "set_value h f d = (Inr (), f\<lparr>f_value := d\<rparr>, h1)"
    and s1: "flag_step root t p h f h1 (f\<lparr>f_value := d\<rparr>)" by blast
  let ?f2 = "f\<lparr>f_value := d, f_present := f_present f + 1\<rparr>"
  from rewrite_step[OF s1 w ns leaf ne, of ?f2] obtain h2 where
    u: "update_shared_dict h1 (f_shared_dict ?f2) (f_namespace ?f2) (f_value ?f2) = Inr h2"
    and s2: "flag_step root t p h f h2 ?f2" by auto
  from Inr nv sv u have "ItemFlag_parse h ls f arg = (Inr (), ?f2, h2, ls1)"
    by (simp add: ItemFlag_parse_def)
  moreover have "list_step ls f ls1 ?f2"
    using list_step_present[OF new_value_step[OF nv, of f]] by simp
  moreover have "read_value ls1 (f_value ?f2) = Some v"
    using new_value_read[OF nv] by simp
  ultimately show ?thesis using s2 Inr by simp
qed

text \<open>An override of a \<open>_MultiFlag\<close>: the first occurrence assigns the new list,
  a later one extends the list that the flag holds.\<close>

lemma MultiFlag_parse_step:
  assumes ok: "tree_ok h (Ref root) t" and w: "wrapper_ok h (f_shared_dict f) name root t"
    and ns: "f_namespace f = name # p"
    and leaf: "node_at t p = Some x" "is_leaf x" and ne: "p \<noteq> []"
    and cur: "descend h (Ref root) p = Inr (f_value f)"
  shows "\<exists>r f' h' ls'. MultiFlag_parse h ls f arg = (r, f', h', ls')
      \<and> flag_step root t p h f h' f' \<and> list_step ls f ls' f'
      \<and> (case MultiFlag__parse (f_parser f) arg of
            Inl e \<Rightarrow> r = Inl e \<and> f' = f \<and> h' = h \<and> ls' = ls
          | Inr vs \<Rightarrow>
              (if f_present f = 0
               then r = Inr () \<and> read_value ls' (f_value f') = Some (PList vs)
                  \<and> f_present f' = f_present f + length vs
               else (case read_value ls (f_value f) of
                       Some (PList old) \<Rightarrow>
                         r = Inr () \<and> read_value ls' (f_value f') = Some (PList (old @ vs))
                         \<and> f_present f' = f_present f + length vs
                     | _ \<Rightarrow> r = Inl (AttributeError ''extend'') \<and> f' = f \<and> h' = h
                         \<and> ls' = ls)))"
proof (cases "MultiFlag__parse (f_parser f) arg")
  case (Inl e)
  then show ?thesis
    using flag_step_refl[OF ok cur] list_step_refl by (simp add: MultiFlag_parse_def)
next
  case (Inr vs)
  show ?thesis
  proof (cases "f_present f = 0")
    case True
    let ?d = "ListRef (length ls)"
    from set_value_step[OF ok w ns leaf ne, of ?d] obtain h1 where
      sv: "set_value h f ?d = (Inr (), f\<lparr>f_value := ?d\<rparr>, h1)"
      and s1: "flag_step root t p h f h1 (f\<lparr>f_value := ?d\<rparr>)" by blast
    let ?f2 = "f\<lparr>f_value := ?d, f_present := f_present f + length vs\<rparr>"
    from rewrite_step[OF s1 w ns leaf ne, of ?f2] obtain h2 where
      u: "update_shared_dict h1 (f_shared_dict ?f2) (f_namespace ?f2) (f_value ?f2) = Inr h2"
      and s2: "flag_step root t p h f h2 ?f2" by auto
    from Inr True sv u have "MultiFlag_parse h ls f arg = (Inr (), ?f2, h2, ls @ [vs])"
      by (simp add: MultiFlag_parse_def)
    moreover have "list_step ls f (ls @ [vs]) ?f2"
      by (auto simp: list_step_def read_value_def nth_append)
    moreover have "read_value (ls @ [vs]) (f_value ?f2) = Some (PList vs)"
      by (simp add: read_value_def)
    ultimately show ?thesis using s2 Inr True by simp
  next
    case False
    have s0: "flag_step root t p h f h f" by (rule flag_step_refl[OF ok cur])
    show ?thesis
    proof (cases "extend_value ls f vs")
      case bad: (Inl e)
      then have e: "e = AttributeError ''extend''"
        and nl: "\<forall>old. read_value ls (f_value f) \<noteq> Some (PList old)"
        by (auto simp: extend_value_def read_value_def split: entry.splits pyval.splits if_splits)
      from Inr False bad e have "MultiFlag_parse h ls f arg = (Inl (AttributeError ''extend''), f, h, ls)"
        by (simp add: MultiFlag_parse_def)
      moreover from nl have "(case read_value ls (f_value f) of
                       Some (PList old) \<Rightarrow> False | _ \<Rightarrow> True)"
        by (auto split: option.splits pyval.splits)
      ultimately show ?thesis using s0 list_step_refl Inr False
        by (auto split: option.splits pyval.splits)
    next
      case good: (Inr fl)
      obtain f1 ls1 where fl: "fl = (f1, ls1)" by (cases fl)
      from good fl obtain old where
        old: "read_value ls (f_value f) = Some (PList old)"
        and new: "read_value ls1 (f_value f1) = Some (PList (old @ vs))"
        and same: "f_namespace f1 = f_namespace f" "f_shared_dict f1 = f_shared_dict f"
          "f_parser f1 = f_parser f" "f_present f1 = f_present f"
        and lst: "list_step ls f ls1 f1"
        by (auto simp: extend_value_def read_value_def list_step_def
            split: entry.splits pyval.splits if_splits)
      let ?f2 = "f1\<lparr>f_present := f_present f1 + length vs\<rparr>"
      from rewrite_step[OF s0 w ns leaf ne, of ?f2] same obtain h2 where
        u: "update_shared_dict h (f_shared_dict ?f2) (f_namespace ?f2) (f_value ?f2) = Inr h2"
        and s2: "flag_step root t p h f h2 ?f2" by auto
      from Inr False good fl u have "MultiFlag_parse h ls f arg = (Inr (), ?f2, h2, ls1)"
        by (simp add: MultiFlag_parse_def)
      moreover have "list_step ls f ls1 ?f2" by (rule list_step_present[OF lst])
      ultimately show ?thesis using s2 Inr False old new same by simp
    qed
  qed
qed

lemma inv_leaf_ok: "installed E st fv name root t S \<Longrightarrow> p \<in> S \<Longrightarrow> leaf_ok E st fv name root t p"
  by (simp add: installed_def)

lemma leaf_names_inj:
  assumes "leaf_ok E st fv name root t p" "leaf_ok E st fv name root t q"
    and "join SEPARATOR (name # p) = join SEPARATOR (name # q)"
  shows "p = q"
proof -
  let ?n = "join SEPARATOR (name # p)"
  from assms(1) obtain f where
    f: "registries st fv ?n = Some (ItemFlag f) \<or> registries st fv ?n = Some (MultiFlag f)"
      "f_namespace f = name # p"
    unfolding leaf_ok_def by blast
  from assms(2) obtain g where
    g: "registries st fv (join SEPARATOR (name # q)) = Some (ItemFlag g)
        \<or> registries st fv (join SEPARATOR (name # q)) = Some (MultiFlag g)"
      "f_namespace g = name # q"
    unfolding leaf_ok_def by blast
  from f(1) g(1) assms(3) have "f = g" by auto
  with f(2) g(2) show ?thesis by simp
qed

lemma leaf_not_root: "\<not> is_leaf t \<Longrightarrow> node_at t p = Some x \<Longrightarrow> is_leaf x \<Longrightarrow> p \<noteq> []"
  by (cases p) auto



text \<open>Replacing the flag of a leaf after a step of that flag keeps the invariant.\<close>

lemma leaf_op_inv:
  assumes i: "installed E st fv name root t S" and p: "p \<in> S"
    and reg: "registries st fv (join SEPARATOR (name # p)) = Some (mk f)"
    and mk: "mk = ItemFlag \<or> mk = MultiFlag"
    and step: "flag_step root t p (heap st) f h' f'"
    and st': "st' = register (st\<lparr>heap := h', lists := ls'\<rparr>) fv (join SEPARATOR (name # p)) (mk f')"
    and keep: "\<And>x g. E x (lists st) g \<Longrightarrow> E x ls' g"
    and new: "\<And>x. E x (lists st) f \<Longrightarrow> E x ls' f'"
  shows "installed E st' fv name root t S"
proof (rule inv_step[OF i, of st' p])
  show "writes (heap st) (heap st') root t p"
    using step by (simp add: st' register_def flag_step_def)
next
  fix q assume q: "q \<in> S" "q \<noteq> p"
  from leaf_names_inj[OF inv_leaf_ok[OF i q(1)] inv_leaf_ok[OF i p]] q(2)
  have "join SEPARATOR (name # q) \<noteq> join SEPARATOR (name # p)" by auto
  then show "registries st' fv (join SEPARATOR (name # q))
      = registries st fv (join SEPARATOR (name # q))"
    by (simp add: st' register_def)
next
  fix x g assume "E x (lists st) g"
  from keep[OF this] show "E x (lists st') g" by (simp add: st' register_def)
next
  assume "p \<in> S"
  from inv_leaf_ok[OF i p] obtain x f0 it where
    x: "node_at t p = Some x"
    and r: "x = DItem it \<and> registries st fv (join SEPARATOR (name # p)) = Some (ItemFlag f0)
           \<or> x = DMultiItem it \<and> registries st fv (join SEPARATOR (name # p)) = Some (MultiFlag f0)"
    and rest: "f_parser f0 = parser it" "f_namespace f0 = name # p"
      "wrapper_ok (heap st) (f_shared_dict f0) name root t"
    and E: "E x (lists st) f0"
    unfolding leaf_ok_def by blast
  from r reg mk have f0: "f0 = f" and kind: "x = DItem it \<and> mk = ItemFlag \<or> x = DMultiItem it \<and> mk = MultiFlag"
    by auto
  from step have w: "writes (heap st) h' root t p"
    and d: "descend h' (Ref root) p = Inr (f_value f')"
    and eq: "f_namespace f' = f_namespace f" "f_shared_dict f' = f_shared_dict f"
      "f_parser f' = f_parser f"
    by (auto simp: flag_step_def)
  from w rest(3) f0 have w': "wrapper_ok h' (f_shared_dict f) name root t"
    by (auto simp: writes_def)
  from new[of x] E f0 have E': "E x ls' f'" by simp
  show "leaf_ok E st' fv name root t p"
    unfolding leaf_ok_def
    using x kind rest f0 eq d w' E'
    by (intro exI[of _ x] exI[of _ f'] exI[of _ it])
      (auto simp: st' register_def)
qed


lemma register_same:
  "registries st fv n = Some fl \<Longrightarrow> register (st\<lparr>heap := heap st, lists := lists st\<rparr>) fv n fl = st"
  by (cases st) (auto simp: register_def fun_upd_idem_iff)

text \<open>An override of the flag of a leaf.\<close>

lemma flag_parse_leaf:
  assumes i: "installed E st fv name root t S" and nl: "\<not> is_leaf t" and p: "p \<in> S"
    and run: "flag_parse st fv (join SEPARATOR (name # p)) arg = (r, st')"
  obtains f f' it mk where
    "registries st fv (join SEPARATOR (name # p)) = Some (mk f)"
    "st' = register (st\<lparr>heap := heap st', lists := lists st'\<rparr>) fv (join SEPARATOR (name # p)) (mk f')"
    "flag_step root t p (heap st) f (heap st') f'"
    "list_step (lists st) f (lists st') f'"
    "node_at t p = Some (DItem it) \<and> mk = ItemFlag
       \<and> (case Flag__parse (parser it) arg of
             Inl e \<Rightarrow> r = Inl e \<and> f' = f \<and> heap st' = heap st \<and> lists st' = lists st
           | Inr v \<Rightarrow> r = Inr () \<and> read_value (lists st') (f_value f') = Some v
                \<and> f_present f' = f_present f + 1)
     \<or> node_at t p = Some (DMultiItem it) \<and> mk = MultiFlag
       \<and> (case MultiFlag__parse (parser it) arg of
             Inl e \<Rightarrow> r = Inl e \<and> f' = f \<and> heap st' = heap st \<and> lists st' = lists st
           | Inr vs \<Rightarrow>
               (if f_present f = 0
                then r = Inr () \<and> read_value (lists st') (f_value f') = Some (PList vs)
                   \<and> f_present f' = f_present f + length vs
                else (case read_value (lists st) (f_value f) of
                        Some (PList old) \<Rightarrow>
                          r = Inr () \<and> read_value (lists st') (f_value f') = Some (PList (old @ vs))
                          \<and> f_present f' = f_present f + length vs
                      | _ \<Rightarrow> r = Inl (AttributeError ''extend'') \<and> f' = f
                          \<and> heap st' = heap st \<and> lists st' = lists st)))"
proof -
  let ?n = "join SEPARATOR (name # p)"
  from i have ok: "tree_ok (heap st) (Ref root) t" by (simp add: installed_def)
  from inv_leaf_ok[OF i p] obtain x f it where
    x: "node_at t p = Some x"
    and r: "x = DItem it \<and> registries st fv ?n = Some (ItemFlag f)
           \<or> x = DMultiItem it \<and> registries st fv ?n = Some (MultiFlag f)"
    and rest: "f_parser f = parser it" "f_namespace f = name # p"
      "wrapper_ok (heap st) (f_shared_dict f) name root t"
      "descend (heap st) (Ref root) p = Inr (f_value f)"
    unfolding leaf_ok_def by blast
  from r have lf: "is_leaf x" by auto
  from leaf_not_root[OF nl x lf] have ne: "p \<noteq> []" .
  from r show thesis
  proof
    assume a: "x = DItem it \<and> registries st fv ?n = Some (ItemFlag f)"
    from ItemFlag_parse_step[OF ok rest(3) rest(2) x lf ne rest(4), of "lists st" arg]
    obtain r' f' h' ls' where
      ps: "ItemFlag_parse (heap st) (lists st) f arg = (r', f', h', ls')"
      and step: "flag_step root t p (heap st) f h' f'"
      and lst: "list_step (lists st) f ls' f'"
      and val: "case Flag__parse (f_parser f) arg of
            Inl e \<Rightarrow> r' = Inl e \<and> f' = f \<and> h' = heap st \<and> ls' = lists st
          | Inr v \<Rightarrow> r' = Inr () \<and> read_value ls' (f_value f') = Some v
               \<and> f_present f' = f_present f + 1" by blast
    from run a ps have rr: "r = r'"
      and st': "st' = register (st\<lparr>heap := h', lists := ls'\<rparr>) fv ?n (ItemFlag f')"
      by (auto simp: flag_parse_def)
    have hp: "heap st' = h'" and lp: "lists st' = ls'" by (simp_all add: st' register_def)
    show thesis
    proof (rule that[of ItemFlag f f' it])
      show "registries st fv ?n = Some (ItemFlag f)" using a by simp
      show "st' = register (st\<lparr>heap := heap st', lists := lists st'\<rparr>) fv ?n (ItemFlag f')"
        using st' hp lp by simp
      show "flag_step root t p (heap st) f (heap st') f'" using step hp by simp
      show "list_step (lists st) f (lists st') f'" using lst lp by simp
      from a x have n: "node_at t p = Some (DItem it)" by simp
      have k: "case Flag__parse (parser it) arg of
             Inl e \<Rightarrow> r = Inl e \<and> f' = f \<and> heap st' = heap st \<and> lists st' = lists st
           | Inr v \<Rightarrow> r = Inr () \<and> read_value (lists st') (f_value f') = Some v
                \<and> f_present f' = f_present f + 1"
        using val unfolding rr[symmetric] hp[symmetric] lp[symmetric] rest(1) .
      show "node_at t p = Some (DItem it) \<and> ItemFlag = ItemFlag
       \<and> (case Flag__parse (parser it) arg of
             Inl e \<Rightarrow> r = Inl e \<and> f' = f \<and> heap st' = heap st \<and> lists st' = lists st
           | Inr v \<Rightarrow> r = Inr () \<and> read_value (lists st') (f_value f') = Some v
                \<and> f_present f' = f_present f + 1)
     \<or> node_at t p = Some (DMultiItem it) \<and> ItemFlag = MultiFlag
       \<and> (case MultiFlag__parse (parser it) arg of
             Inl e \<Rightarrow> r = Inl e \<and> f' = f \<and> heap st' = heap st \<and> lists st' = lists st
           | Inr vs \<Rightarrow>
               (if f_present f = 0
                then r = Inr () \<and> read_value (lists st') (f_value f') = Some (PList vs)
                   \<and> f_present f' = f_present f + length vs
                else (case read_value (lists st) (f_value f) of
                        Some (PList old) \<Rightarrow>
                          r = Inr () \<and> read_value (lists st') (f_value f') = Some (PList (old @ vs))
                          \<and> f_present f' = f_present f + length vs
                      | _ \<Rightarrow> r = Inl (AttributeError ''extend'') \<and> f' = f
                          \<and> heap st' = heap st \<and> lists st' = lists st)))"
        by (rule disjI1) (rule conjI[OF n conjI[OF refl k]])
    qed
  next
    assume a: "x = DMultiItem it \<and> registries st fv ?n = Some (MultiFlag f)"
    from MultiFlag_parse_step[OF ok rest(3) rest(2) x lf ne rest(4), of "lists st" arg]
    obtain r' f' h' ls' where
      ps: "MultiFlag_parse (heap st) (lists st) f arg = (r', f', h', ls')"
      and step: "flag_step root t p (heap st) f h' f'"
      and lst: "list_step (lists st) f ls' f'"
      and val: "case MultiFlag__parse (f_parser f) arg of
            Inl e \<Rightarrow> r' = Inl e \<and> f' = f \<and> h' = heap st \<and> ls' = lists st
          | Inr vs \<Rightarrow>
              (if f_present f = 0
               then r' = Inr () \<and> read_value ls' (f_value f') = Some (PList vs)
                  \<and> f_present f' = f_present f + length vs
               else (case read_value (lists st) (f_value f) of
                       Some (PList old) \<Rightarrow>
                         r' = Inr () \<and> read_value ls' (f_value f') = Some (PList (old @ vs))
                         \<and> f_present f' = f_present f + length vs
                     | _ \<Rightarrow> r' = Inl (AttributeError ''extend'') \<and> f' = f \<and> h' = heap st
                         \<and> ls' = lists st))" by blast
    from run a ps have rr: "r = r'"
      and st': "st' = register (st\<lparr>heap := h', lists := ls'\<rparr>) fv ?n (MultiFlag f')"
      by (auto simp: flag_parse_def)
    have hp: "heap st' = h'" and lp: "lists st' = ls'" by (simp_all add: st' register_def)
    show thesis
    proof (rule that[of MultiFlag f f' it])
      show "registries st fv ?n = Some (MultiFlag f)" using a by simp
      show "st' = register (st\<lparr>heap := heap st', lists := lists st'\<rparr>) fv ?n (MultiFlag f')"
        using st' hp lp by simp
      show "flag_step root t p (heap st) f (heap st') f'" using step hp by simp
      show "list_step (lists st) f (lists st') f'" using lst lp by simp
      from a x have n: "node_at t p = Some (DMultiItem it)" by simp
      have k: "case MultiFlag__parse (parser it) arg of
             Inl e \<Rightarrow> r = Inl e \<and> f' = f \<and> heap st' = heap st \<and> lists st' = lists st
           | Inr vs \<Rightarrow>
               (if f_present f = 0
                then r = Inr () \<and> read_value (lists st') (f_value f') = Some (PList vs)
                   \<and> f_present f' = f_present f + length vs
                else (case read_value (lists st) (f_value f) of
                        Some (PList old) \<Rightarrow>
                          r = Inr () \<and> read_value (lists st') (f_value f') = Some (PList (old @ vs))
                          \<and> f_present f' = f_present f + length vs
                      | _ \<Rightarrow> r = Inl (AttributeError ''extend'') \<and> f' = f
                          \<and> heap st' = heap st \<and> lists st' = lists st))"
        using val unfolding rr[symmetric] hp[symmetric] lp[symmetric] rest(1) .
      show "node_at t p = Some (DItem it) \<and> MultiFlag = ItemFlag
       \<and> (case Flag__parse (parser it) arg of
             Inl e \<Rightarrow> r = Inl e \<and> f' = f \<and> heap st' = heap st \<and> lists st' = lists st
           | Inr v \<Rightarrow> r = Inr () \<and> read_value (lists st') (f_value f') = Some v
                \<and> f_present f' = f_present f + 1)
     \<or> node_at t p = Some (DMultiItem it) \<and> MultiFlag = MultiFlag
       \<and> (case MultiFlag__parse (parser it) arg of
             Inl e \<Rightarrow> r = Inl e \<and> f' = f \<and> heap st' = heap st \<and> lists st' = lists st
           | Inr vs \<Rightarrow>
               (if f_present f = 0
                then r = Inr () \<and> read_value (lists st') (f_value f') = Some (PList vs)
                   \<and> f_present f' = f_present f + length vs
                else (case read_value (lists st) (f_value f) of
                        Some (PList old) \<Rightarrow>
                          r = Inr () \<and> read_value (lists st') (f_value f') = Some (PList (old @ vs))
                          \<and> f_present f' = f_present f + length vs
                      | _ \<Rightarrow> r = Inl (AttributeError ''extend'') \<and> f' = f
                          \<and> heap st' = heap st \<and> lists st' = lists st)))"
        by (rule disjI2) (rule conjI[OF n conjI[OF refl k]])
    qed
  qed
qed

text \<open>An assignment to the value of the flag of a leaf.\<close>

lemma flag_assign_leaf:
  assumes i: "installed E st fv name root t S" and nl: "\<not> is_leaf t" and p: "p \<in> S"
    and run: "flag_assign st fv (join SEPARATOR (name # p)) v = (r, st')"
  obtains f mk where
    "mk = ItemFlag \<or> mk = MultiFlag"
    "registries st fv (join SEPARATOR (name # p)) = Some (mk f)"
    "st' = register (st\<lparr>heap := heap st'\<rparr>) fv (join SEPARATOR (name # p)) (mk (f\<lparr>f_value := v\<rparr>))"
    "flag_step root t p (heap st) f (heap st') (f\<lparr>f_value := v\<rparr>)"
    "r = Inr ()"
proof -
  let ?n = "join SEPARATOR (name # p)"
  from i have ok: "tree_ok (heap st) (Ref root) t" by (simp add: installed_def)
  from inv_leaf_ok[OF i p] obtain x f it where
    x: "node_at t p = Some x"
    and r: "x = DItem it \<and> registries st fv ?n = Some (ItemFlag f)
           \<or> x = DMultiItem it \<and> registries st fv ?n = Some (MultiFlag f)"
    and rest: "f_parser f = parser it" "f_namespace f = name # p"
      "wrapper_ok (heap st) (f_shared_dict f) name root t"
    unfolding leaf_ok_def by blast
  from r have lf: "is_leaf x" by auto
  from leaf_not_root[OF nl x lf] have ne: "p \<noteq> []" .
  from set_value_step[OF ok rest(3) rest(2) x lf ne, of v] obtain h' where
    sv: "set_value (heap st) f v = (Inr (), f\<lparr>f_value := v\<rparr>, h')"
    and step: "flag_step root t p (heap st) f h' (f\<lparr>f_value := v\<rparr>)" by blast
  from r obtain mk where mk: "mk = ItemFlag \<or> mk = MultiFlag"
    and reg: "registries st fv ?n = Some (mk f)" by auto
  from run sv reg mk have rr: "r = Inr ()"
    and st': "st' = register (st\<lparr>heap := h'\<rparr>) fv ?n (mk (f\<lparr>f_value := v\<rparr>))"
    by (auto simp: flag_assign_def)
  have hp: "heap st' = h'" by (simp add: st' register_def)
  show thesis
    by (rule that[OF mk reg _ _ rr]) (use st' step hp in simp_all)
qed

lemma installed_lists:
  assumes "installed E st fv name root t S"
    and "\<And>x g. E x (lists st) g \<Longrightarrow> E x ls' g"
  shows "installed E (st\<lparr>lists := ls'\<rparr>) fv name root t S"
  using assms unfolding installed_def leaf_ok_def by simp blast

text \<open>Every operation on the flag of a leaf is a step of that flag.\<close>

lemma apply_op_leaf:
  assumes i: "installed any_flag st fv name root t S" and nl: "\<not> is_leaf t" and p: "p \<in> S"
    and n: "op_name x = join SEPARATOR (name # p)"
    and run: "apply_op st fv x = (r, st')"
  obtains f f' mk where
    "mk = ItemFlag \<or> mk = MultiFlag"
    "registries st fv (join SEPARATOR (name # p)) = Some (mk f)"
    "st' = register (st\<lparr>heap := heap st', lists := lists st'\<rparr>) fv (join SEPARATOR (name # p)) (mk f')"
    "flag_step root t p (heap st) f (heap st') f'"
    "\<not> shares_value x \<longrightarrow> list_step (lists st) f (lists st') f'"
proof (cases x)
  case (Override m arg)
  with run n have fp: "flag_parse st fv (join SEPARATOR (name # p)) arg = (r, st')" by simp
  from flag_parse_leaf[OF i nl p fp] obtain f f' it mk where
    a: "registries st fv (join SEPARATOR (name # p)) = Some (mk f)"
      "st' = register (st\<lparr>heap := heap st', lists := lists st'\<rparr>) fv (join SEPARATOR (name # p)) (mk f')"
      "flag_step root t p (heap st) f (heap st') f'"
      "list_step (lists st) f (lists st') f'"
    and k: "node_at t p = Some (DItem it) \<and> mk = ItemFlag
       \<and> (case Flag__parse (parser it) arg of
             Inl e \<Rightarrow> r = Inl e \<and> f' = f \<and> heap st' = heap st \<and> lists st' = lists st
           | Inr v \<Rightarrow> r = Inr () \<and> read_value (lists st') (f_value f') = Some v
                \<and> f_present f' = f_present f + 1)
     \<or> node_at t p = Some (DMultiItem it) \<and> mk = MultiFlag
       \<and> (case MultiFlag__parse (parser it) arg of
             Inl e \<Rightarrow> r = Inl e \<and> f' = f \<and> heap st' = heap st \<and> lists st' = lists st
           | Inr vs \<Rightarrow>
               (if f_present f = 0
                then r = Inr () \<and> read_value (lists st') (f_value f') = Some (PList vs)
                   \<and> f_present f' = f_present f + length vs
                else (case read_value (lists st) (f_value f) of
                        Some (PList old) \<Rightarrow>
                          r = Inr () \<and> read_value (lists st') (f_value f') = Some (PList (old @ vs))
                          \<and> f_present f' = f_present f + length vs
                      | _ \<Rightarrow> r = Inl (AttributeError ''extend'') \<and> f' = f
                          \<and> heap st' = heap st \<and> lists st' = lists st)))" .
  from k have mk: "mk = ItemFlag \<or> mk = MultiFlag" by blast
  show thesis by (rule that[OF mk a(1) a(2) a(3)]) (use a(4) in simp)
next
  case (Assign m v)
  obtain d ls' where nv: "new_value (lists st) v = (d, ls')" by (cases "new_value (lists st) v")
  with run n Assign have fa: "flag_assign (st\<lparr>lists := ls'\<rparr>) fv (join SEPARATOR (name # p)) d = (r, st')"
    by simp
  have i1: "installed any_flag (st\<lparr>lists := ls'\<rparr>) fv name root t S"
    by (rule installed_lists[OF i]) (simp add: any_flag_def)
  from flag_assign_leaf[OF i1 nl p fa] obtain f mk where
    a: "mk = ItemFlag \<or> mk = MultiFlag"
      "registries (st\<lparr>lists := ls'\<rparr>) fv (join SEPARATOR (name # p)) = Some (mk f)"
      "st' = register (st\<lparr>lists := ls'\<rparr>\<lparr>heap := heap st'\<rparr>) fv (join SEPARATOR (name # p))
         (mk (f\<lparr>f_value := d\<rparr>))"
      "flag_step root t p (heap (st\<lparr>lists := ls'\<rparr>)) f (heap st') (f\<lparr>f_value := d\<rparr>)" .
  have lp: "lists st' = ls'" by (subst a(3)) (simp add: register_def)
  show thesis
  proof (rule that[OF a(1), of f "f\<lparr>f_value := d\<rparr>"])
    show "registries st fv (join SEPARATOR (name # p)) = Some (mk f)" using a(2) by simp
    have sw: "st\<lparr>lists := ls'\<rparr>\<lparr>heap := heap st'\<rparr> = st\<lparr>heap := heap st', lists := ls'\<rparr>"
      by simp
    show "st' = register (st\<lparr>heap := heap st', lists := lists st'\<rparr>) fv
        (join SEPARATOR (name # p)) (mk (f\<lparr>f_value := d\<rparr>))"
      using a(3) unfolding lp sw .
    show "flag_step root t p (heap st) f (heap st') (f\<lparr>f_value := d\<rparr>)" using a(4) by simp
    show "\<not> shares_value x \<longrightarrow> list_step (lists st) f (lists st') (f\<lparr>f_value := d\<rparr>)"
      using new_value_step[OF nv, of f] lp by simp
  qed
next
  case (AssignValueOf m other)
  show thesis
  proof (cases "holder_value st (fv, other)")
    case None
    with run AssignValueOf have st': "st' = st" by simp
    from inv_leaf_ok[OF i p] obtain f mk where
      mk: "mk = ItemFlag \<or> mk = MultiFlag"
      and reg: "registries st fv (join SEPARATOR (name # p)) = Some (mk f)"
      and d: "descend (heap st) (Ref root) p = Inr (f_value f)"
      unfolding leaf_ok_def by blast
    from i have ok: "tree_ok (heap st) (Ref root) t" by (simp add: installed_def)
    show thesis
    proof (rule that[OF mk reg, of f])
      show "st' = register (st\<lparr>heap := heap st', lists := lists st'\<rparr>) fv
          (join SEPARATOR (name # p)) (mk f)"
        using register_same[OF reg] st' by simp
      show "flag_step root t p (heap st) f (heap st') f"
        using flag_step_refl[OF ok d] st' by simp
      show "\<not> shares_value x \<longrightarrow> list_step (lists st) f (lists st') f"
        using AssignValueOf by simp
    qed
  next
    case (Some d)
    with run n AssignValueOf have fa: "flag_assign st fv (join SEPARATOR (name # p)) d = (r, st')"
      by simp
    from flag_assign_leaf[OF i nl p fa] obtain f mk where
      a: "mk = ItemFlag \<or> mk = MultiFlag"
        "registries st fv (join SEPARATOR (name # p)) = Some (mk f)"
        "st' = register (st\<lparr>heap := heap st'\<rparr>) fv (join SEPARATOR (name # p))
           (mk (f\<lparr>f_value := d\<rparr>))"
        "flag_step root t p (heap st) f (heap st') (f\<lparr>f_value := d\<rparr>)" .
    have lp: "lists st' = lists st" by (subst a(3)) (simp add: register_def)
    show thesis
    proof (rule that[OF a(1) a(2), of "f\<lparr>f_value := d\<rparr>"])
      have sw: "st\<lparr>heap := heap st', lists := lists st\<rparr> = st\<lparr>heap := heap st'\<rparr>"
        by simp
      show "st' = register (st\<lparr>heap := heap st', lists := lists st'\<rparr>) fv
          (join SEPARATOR (name # p)) (mk (f\<lparr>f_value := d\<rparr>))"
        using a(3) unfolding lp sw .
      show "flag_step root t p (heap st) f (heap st') (f\<lparr>f_value := d\<rparr>)" by (rule a(4))
      show "\<not> shares_value x \<longrightarrow> list_step (lists st) f (lists st') (f\<lparr>f_value := d\<rparr>)"
        using AssignValueOf by simp
    qed
  qed
qed

text \<open>The invariant holds in every state that operations on the flags of the
  leaves reach.\<close>

lemma apply_op_inv:
  assumes i: "installed any_flag st fv name root t S" and nl: "\<not> is_leaf t" and p: "p \<in> S"
    and n: "op_name x = join SEPARATOR (name # p)"
    and run: "apply_op st fv x = (r, st')"
  shows "installed any_flag st' fv name root t S"
proof -
  from apply_op_leaf[OF i nl p n run] obtain f f' mk where
    a: "mk = ItemFlag \<or> mk = MultiFlag"
      "registries st fv (join SEPARATOR (name # p)) = Some (mk f)"
      "st' = register (st\<lparr>heap := heap st', lists := lists st'\<rparr>) fv (join SEPARATOR (name # p)) (mk f')"
      "flag_step root t p (heap st) f (heap st') f'" .
  show ?thesis
    by (rule leaf_op_inv[OF i p a(2) a(1) a(4) a(3)]) (simp_all add: any_flag_def)
qed

lemma run_ops_inv:
  assumes nl: "\<not> is_leaf t"
  shows "installed any_flag st fv name root t S \<Longrightarrow>
     (\<forall>x\<in>set ops. \<exists>p\<in>S. op_name x = join SEPARATOR (name # p)) \<Longrightarrow>
     run_ops st fv ops = (r, st') \<Longrightarrow> installed any_flag st' fv name root t S"
proof (induction ops arbitrary: st)
  case Nil
  then show ?case by simp
next
  case (Cons x ops)
  from Cons.prems(2) obtain p where p: "p \<in> S" "op_name x = join SEPARATOR (name # p)" by auto
  obtain r1 st1 where a: "apply_op st fv x = (r1, st1)" by (cases "apply_op st fv x")
  have i1: "installed any_flag st1 fv name root t S"
    by (rule apply_op_inv[OF Cons.prems(1) nl p a])
  show ?case
  proof (cases r1)
    case (Inl e)
    with a Cons.prems(3) i1 show ?thesis by simp
  next
    case (Inr u)
    with a Cons.prems(3) have "run_ops st1 fv ops = (r, st')" by simp
    from Cons.IH[OF i1 _ this] Cons.prems(2) show ?thesis by simp
  qed
qed



lemma ops_leaves:
  assumes d: "distinct_keys (DDict m)"
    and ops: "\<forall>x\<in>set ops. op_name x \<in> set (leaf_names name m)"
  shows "\<forall>x\<in>set ops. \<exists>p\<in>leaves (DDict m). op_name x = join SEPARATOR (name # p)"
proof -
  have eq: "set (leaf_paths (DDict m)) = leaves (DDict m)" by (rule leaf_paths_leaves[OF d])
  from ops have "\<forall>x\<in>set ops. \<exists>p\<in>set (leaf_paths (DDict m)).
      op_name x = join SEPARATOR (name # p)"
    unfolding leaf_names_def by (auto simp del: leaf_paths.simps join.simps)
  then show ?thesis unfolding eq .
qed

lemma reachable_inv:
  assumes d: "distinct_keys (DDict m)"
    and df: "define_flags st0 name m fv = (Inr root, st1)"
    and ops: "\<forall>x\<in>set ops. op_name x \<in> set (leaf_names name m)"
    and run: "run_ops st1 fv ops = (r, st)"
  shows "installed any_flag st fv name root (DDict m) (leaves (DDict m))"
proof -
  from define_flags_inv[OF d df]
  have i1: "installed any_flag st1 fv name root (DDict m) (leaves (DDict m))"
    by (simp add: inv_weaken)
  have nl: "\<not> is_leaf (DDict m)" by simp
  from run_ops_inv[OF nl i1 ops_leaves[OF d ops] run] show ?thesis .
qed


lemma lookups_descend: "descend h d ns = Inr e \<Longrightarrow> lookups h d ns = length ns"
  by (induction ns arbitrary: d) (auto split: sum.splits)

text \<open>What the invariant says about the flag of one leaf.\<close>

lemma leaf_ok_facts:
  assumes ok: "tree_ok (heap st) (Ref root) t" and nl: "\<not> is_leaf t"
    and l: "leaf_ok E st fv name root t p"
  shows "\<exists>f a. (registries st fv (join SEPARATOR (name # p)) = Some (ItemFlag f)
             \<or> registries st fv (join SEPARATOR (name # p)) = Some (MultiFlag f))
      \<and> f_namespace f = name # p
      \<and> subscript (heap st) (Ref (f_shared_dict f)) name = Inr (Ref root)
      \<and> descend (heap st) (Ref (f_shared_dict f)) (butlast (f_namespace f)) = Inr (Ref a)
      \<and> a < length (heap st)
      \<and> map_of (heap st ! a) (last (f_namespace f)) = Some (f_value f)
      \<and> descend (heap st) (Ref (f_shared_dict f)) (f_namespace f) = Inr (f_value f)
      \<and> descend (heap st) (Ref root) p = Inr (f_value f)
      \<and> (\<forall>v. \<exists>h'. update_shared_dict (heap st) (f_shared_dict f) (f_namespace f) v = Inr h')"
proof -
  let ?h = "heap st"
  from l obtain x f it where
    x: "node_at t p = Some x"
    and r: "x = DItem it \<and> registries st fv (join SEPARATOR (name # p)) = Some (ItemFlag f)
           \<or> x = DMultiItem it \<and> registries st fv (join SEPARATOR (name # p)) = Some (MultiFlag f)"
    and rest: "f_namespace f = name # p"
      "wrapper_ok ?h (f_shared_dict f) name root t"
      "descend ?h (Ref root) p = Inr (f_value f)"
    unfolding leaf_ok_def by blast
  from r have lf: "is_leaf x" by auto
  from leaf_not_root[OF nl x lf] obtain c k where p: "p = c @ [k]" by (metis rev_exhaust)
  from node_at_snoc_Some[OF x[unfolded p]] obtain m' where c: "node_at t c = Some (DDict m')"
    by blast
  from tree_okD_dict[OF ok c] obtain a where
    a: "descend ?h (Ref root) c = Inr (Ref a)" "a < length ?h" by blast
  from rest(2) have sub: "subscript ?h (Ref (f_shared_dict f)) name = Inr (Ref root)"
    by (simp add: wrapper_ok_def subscript_Ref)
  have bl: "butlast (f_namespace f) = name # c" "last (f_namespace f) = k"
    using rest(1) p by simp_all
  have d1: "descend ?h (Ref (f_shared_dict f)) (butlast (f_namespace f)) = Inr (Ref a)"
    using sub a(1) bl by simp
  from rest(3) a have m: "map_of (?h ! a) k = Some (f_value f)"
    by (auto simp: p descend_snoc subscript_Ref split: option.splits)
  have d2: "descend ?h (Ref (f_shared_dict f)) (f_namespace f) = Inr (f_value f)"
    using sub rest(1,3) by simp
  have up: "\<exists>h'. update_shared_dict ?h (f_shared_dict f) (f_namespace f) v = Inr h'" for v
    using write_through[OF ok rest(2) x lf leaf_not_root[OF nl x lf], of v] rest(1) by auto
  from r rest sub d1 a(2) m d2 up bl show ?thesis by blast
qed

section \<open>The claims about the shared dictionary\<close>

text \<open>
  In the theorems below a definition \<open>m\<close> (a Python dict, so with distinct keys)
  has been defined by \<open>define_flags\<close> in any state \<open>st0\<close>, and \<open>st\<close> is any
  state reached from there by overrides and assignments of the flags of the
  leaves of \<open>m\<close>; \<open>run_ops\<close> stops at the first exception, and \<open>st\<close> is the
  state it leaves.
\<close>

text \<open>
  Claim C1. For every leaf flag made from an \<open>Item\<close> or \<open>MultiItem\<close>, after the
  construction of the flag (\<open>ops = []\<close>), after a command-line override and
  after an assignment to the flag's value, the shared dictionary holds the flag's
  current value at the leaf: the descent from the flag's \<open>_shared_dict\<close> through
  all but the last segment of its namespace ends at a dictionary whose entry at
  the last segment is the flag's value, and so does the descent from the shared
  dictionary that \<open>define_flags\<close> returned, along the leaf's path.
\<close>

theorem write_through_consistent:
  assumes "distinct_keys (DDict m)"
    and "define_flags st0 name m fv = (Inr root, st1)"
    and "\<forall>x\<in>set ops. op_name x \<in> set (leaf_names name m)"
    and "run_ops st1 fv ops = (r, st)"
    and "p \<in> set (leaf_paths (DDict m))"
  shows "\<exists>f a. (registries st fv (join SEPARATOR (name # p)) = Some (ItemFlag f)
             \<or> registries st fv (join SEPARATOR (name # p)) = Some (MultiFlag f))
      \<and> f_namespace f = name # p
      \<and> descend (heap st) (Ref (f_shared_dict f)) (butlast (f_namespace f)) = Inr (Ref a)
      \<and> a < length (heap st)
      \<and> map_of (heap st ! a) (last (f_namespace f)) = Some (f_value f)
      \<and> descend (heap st) (Ref root) p = Inr (f_value f)"
proof -
  from reachable_inv[OF assms(1-4)]
  have i: "installed any_flag st fv name root (DDict m) (leaves (DDict m))" .
  then have ok: "tree_ok (heap st) (Ref root) (DDict m)" by (simp add: installed_def)
  from assms(5) have "p \<in> leaves (DDict m)"
    unfolding leaf_paths_leaves[OF assms(1)] .
  from inv_leaf_ok[OF i this] have "leaf_ok any_flag st fv name root (DDict m) p" .
  from leaf_ok_facts[OF ok _ this] show ?thesis by simp blast
qed

theorem write_through_consistent_witness:
  "define_flags init_state ''image_settings'' image_settings FLAGS = (Inr 0, image_state)
   \<and> (\<exists>f a. (registries (snd (run_ops image_state FLAGS [Override ''image_settings.sizes.height'' (PStr ''10''), Assign ''image_settings.mode'' (PStr ''crop'')])) FLAGS
                 ''image_settings.sizes.height'' = Some (ItemFlag f)
             \<or> registries (snd (run_ops image_state FLAGS [Override ''image_settings.sizes.height'' (PStr ''10''), Assign ''image_settings.mode'' (PStr ''crop'')])) FLAGS
                 ''image_settings.sizes.height'' = Some (MultiFlag f))
      \<and> f_namespace f = [''image_settings'', ''sizes'', ''height'']
      \<and> descend (heap (snd (run_ops image_state FLAGS [Override ''image_settings.sizes.height'' (PStr ''10''), Assign ''image_settings.mode'' (PStr ''crop'')]))) (Ref (f_shared_dict f))
           (butlast (f_namespace f)) = Inr (Ref a)
      \<and> a < length (heap (snd (run_ops image_state FLAGS [Override ''image_settings.sizes.height'' (PStr ''10''), Assign ''image_settings.mode'' (PStr ''crop'')])))
      \<and> map_of (heap (snd (run_ops image_state FLAGS [Override ''image_settings.sizes.height'' (PStr ''10''), Assign ''image_settings.mode'' (PStr ''crop'')])) ! a) (last (f_namespace f))
           = Some (f_value f)
      \<and> descend (heap (snd (run_ops image_state FLAGS [Override ''image_settings.sizes.height'' (PStr ''10''), Assign ''image_settings.mode'' (PStr ''crop'')]))) (Ref 0) [''sizes'', ''height'']
           = Inr (f_value f))
   \<and> descend (heap (snd (run_ops image_state FLAGS [Override ''image_settings.sizes.height'' (PStr ''10''), Assign ''image_settings.mode'' (PStr ''crop'')]))) (Ref 0) [''sizes'', ''height'']
        = Inr (Val (PInt 10))
   \<and> descend (heap (snd (run_ops image_state FLAGS [Override ''image_settings.sizes.height'' (PStr ''10''), Assign ''image_settings.mode'' (PStr ''crop'')]))) (Ref 0) [''mode'']
        = Inr (Val (PStr ''crop''))"
proof -
  have h1: "distinct_keys (DDict image_settings)" by (simp add: image_settings_def)
  have h2: "define_flags init_state ''image_settings'' image_settings FLAGS = (Inr 0, image_state)"
    by (simp add: image_state_def prod_eq_iff eval_defs)
  have h3: "\<forall>x\<in>set [Override ''image_settings.sizes.height'' (PStr ''10''), Assign ''image_settings.mode'' (PStr ''crop'')].
      op_name x \<in> set (leaf_names ''image_settings'' image_settings)"
    by (simp add: leaf_names_def image_settings_def SEPARATOR_def)
  have h4: "run_ops image_state FLAGS [Override ''image_settings.sizes.height'' (PStr ''10''), Assign ''image_settings.mode'' (PStr ''crop'')]
      = (fst (run_ops image_state FLAGS [Override ''image_settings.sizes.height'' (PStr ''10''), Assign ''image_settings.mode'' (PStr ''crop'')]), snd (run_ops image_state FLAGS [Override ''image_settings.sizes.height'' (PStr ''10''), Assign ''image_settings.mode'' (PStr ''crop'')]))"
    by simp
  have h5: "[''sizes'', ''height''] \<in> set (leaf_paths (DDict image_settings))"
    by (simp add: image_settings_def)
  have v: "descend (heap (snd (run_ops image_state FLAGS [Override ''image_settings.sizes.height'' (PStr ''10''), Assign ''image_settings.mode'' (PStr ''crop'')]))) (Ref 0) [''sizes'', ''height'']
        = Inr (Val (PInt 10))
     \<and> descend (heap (snd (run_ops image_state FLAGS [Override ''image_settings.sizes.height'' (PStr ''10''), Assign ''image_settings.mode'' (PStr ''crop'')]))) (Ref 0) [''mode'']
        = Inr (Val (PStr ''crop''))"
    by (simp add: image_state_def eval_defs)
  from write_through_consistent[OF h1 h2 h3 h4 h5] h2 v show ?thesis
    by (simp add: SEPARATOR_def)
qed

text \<open>The exceptions of \<open>define_flags\<close>.\<close>

lemma default_errors_Cons:
  "default_errors (DDict ((k, v) # rest)) = default_errors v @ default_errors (DDict rest)"
  by simp

text \<open>The \<open>value\<close> setter that the constructor of a leaf flag runs through
  the one-entry dictionary \<open>{name: shared_dict}\<close> does not raise.\<close>

lemma leaf_define_error:
  assumes i: "installed fresh st fv name root t S"
    and leaf: "node_at t p = Some x" "is_leaf x" and ne: "p \<noteq> []"
    and sv: "set_value (heap st @ [[(name, Ref root)]]) (new_flag (length (heap st)) (name # p) pr n d) d
        = (Inl e, f, h')"
  shows False
proof -
  from i have ok: "tree_ok (heap st) (Ref root) t" by (simp add: installed_def)
  from writes_append[OF ok, of "[(name, Ref root)]" p]
  have okw: "tree_ok (heap st @ [[(name, Ref root)]]) (Ref root) t" by (simp add: writes_def)
  have wn: "wrapper_ok (heap st @ [[(name, Ref root)]]) (length (heap st)) name root t"
    by (rule wrapper_new[OF ok])
  from write_through[OF okw wn leaf ne, of d] obtain h2 where
    "update_shared_dict (heap st @ [[(name, Ref root)]]) (length (heap st)) (name # p) d = Inr h2"
    by blast
  with sv show False by (simp add: set_value_def new_flag_def)
qed

text \<open>In a definition without malformed nodes, \<open>recursively_define_flags\<close>
  raises only what the registration raised or what a parser raised on a default.\<close>

lemma define_errors:
  "installed fresh st fv name root t S \<and> unshared st root S \<Longrightarrow> ns = name # p \<Longrightarrow>
     node_at t p = Some x \<Longrightarrow>
     distinct_keys x \<Longrightarrow> \<not> is_leaf t \<Longrightarrow> bad_types x = [] \<Longrightarrow>
     recursively_define_flags name root fv st ns x = (Inl e, st') \<Longrightarrow>
     registration_error e \<or> e \<in> set (default_errors x)"
  "installed fresh st2 fv name root t S2 \<and> unshared st2 root S2 \<Longrightarrow> ns2 = name # p2 \<Longrightarrow>
     (\<forall>kv\<in>set rest. node_at t (p2 @ [fst kv]) = Some (snd kv) \<and> distinct_keys (snd kv)
        \<and> bad_types (snd kv) = []) \<Longrightarrow>
     \<not> is_leaf t \<Longrightarrow>
     define_items name root fv st2 ns2 rest = (Inl e2, st3) \<Longrightarrow>
     registration_error e2 \<or> e2 \<in> set (default_errors (DDict rest))"
proof (induction name root fv st ns x and name root fv st2 ns2 rest
    arbitrary: S p st' e and S2 p2 st3 e2
    rule: recursively_define_flags_define_items.induct)
  case (1 name shared_dict fv st namespace m)
  from "1.prems"(4) have dm: "distinct (map fst m)"
    and sub: "\<forall>kv\<in>set m. distinct_keys (snd kv)" by (auto simp: list_all_iff)
  have nodes: "\<forall>kv\<in>set m. node_at t (p @ [fst kv]) = Some (snd kv) \<and> distinct_keys (snd kv)
      \<and> bad_types (snd kv) = []"
  proof
    fix kv assume kv: "kv \<in> set m"
    with dm have "map_of m (fst kv) = Some (snd kv)" by (cases kv) simp
    with "1.prems"(3,6) sub kv
    show "node_at t (p @ [fst kv]) = Some (snd kv) \<and> distinct_keys (snd kv)
        \<and> bad_types (snd kv) = []"
      by (simp add: node_at_append)
  qed
  from "1.prems"(7) have run: "define_items name shared_dict fv st namespace m = (Inl e, st')"
    by simp
  from "1.IH"[OF "1.prems"(1,2) nodes "1.prems"(5) run] show ?case .
next
  case (2 name shared_dict fv st namespace it)
  from "2.prems"(3,5) have ne: "p \<noteq> []" by (cases p) auto
  let ?hw = "heap st @ [[(name, Ref shared_dict)]]" and ?w = "length (heap st)"
  let ?n = "join SEPARATOR (name # p)"
  from "2.prems"(7,2) have run:
    "Item_define (st\<lparr>heap := ?hw\<rparr>) it (name # p) ?w fv = (Inl e, st')" by simp
  from "2.prems"(1) have i: "installed fresh st fv name shared_dict t S" by simp
  show ?case
  proof (cases "ItemFlag_init ?hw (lists st) ?w (name # p) (parser it) ?n (default it)")
    case (Inl e')
    with run have ee: "e' = e" by (simp add: Item_define_def)
    show ?thesis
    proof (cases "if default it = PNone then Inr PNone
                  else Flag__parse (parser it) (default it)")
      case pe: (Inl e1)
      with Inl ee have "e1 = e" by (simp add: ItemFlag_init_def)
      with pe show ?thesis by (auto split: if_splits)
    next
      case pv: (Inr v)
      obtain d ls' where nv: "new_value (lists st) v = (d, ls')"
        by (cases "new_value (lists st) v")
      with pv Inl obtain f h' where
        "set_value ?hw (new_flag ?w (name # p) (parser it) ?n d) d = (Inl e', f, h')"
        by (auto simp: ItemFlag_init_def split: prod.splits sum.splits)
      from leaf_define_error[OF i "2.prems"(3) _ ne this] show ?thesis by simp
    qed
  next
    case (Inr fh)
    with run show ?thesis
      by (cases fh) (auto simp: Item_define_def DEFINE_flag_def split: if_splits)
  qed
next
  case (3 name shared_dict fv st namespace it)
  from "3.prems"(3,5) have ne: "p \<noteq> []" by (cases p) auto
  let ?hw = "heap st @ [[(name, Ref shared_dict)]]" and ?w = "length (heap st)"
  let ?n = "join SEPARATOR (name # p)"
  from "3.prems"(7,2) have run:
    "MultiItem_define (st\<lparr>heap := ?hw\<rparr>) it (name # p) ?w fv = (Inl e, st')" by simp
  from "3.prems"(1) have i: "installed fresh st fv name shared_dict t S" by simp
  show ?case
  proof (cases "MultiFlag_init ?hw (lists st) ?w (name # p) (parser it) ?n (default it)")
    case (Inl e')
    with run have ee: "e' = e" by (simp add: MultiItem_define_def)
    show ?thesis
    proof (cases "if default it = PNone then Inr (Val PNone, lists st)
            else (case MultiFlag__parse (parser it) (default it) of
                    Inl e \<Rightarrow> Inl e
                  | Inr vs \<Rightarrow> Inr (ListRef (length (lists st)), lists st @ [vs]))")
      case pe: (Inl e1)
      with Inl ee have "e1 = e" by (simp add: MultiFlag_init_def)
      with pe show ?thesis by (auto split: if_splits sum.splits)
    next
      case pv: (Inr dl)
      obtain d ls' where dl: "dl = (d, ls')" by (cases dl)
      with pv Inl obtain f h' where
        "set_value ?hw (new_flag ?w (name # p) (parser it) ?n d) d = (Inl e', f, h')"
        by (auto simp: MultiFlag_init_def split: prod.splits sum.splits)
      from leaf_define_error[OF i "3.prems"(3) _ ne this] show ?thesis by simp
    qed
  next
    case (Inr fh)
    with run show ?thesis
      by (cases fh) (auto simp: MultiItem_define_def DEFINE_flag_def split: if_splits)
  qed
next
  case (4 name shared_dict fv st namespace type_name)
  then show ?case by simp
next
  case (5 name shared_dict fv st namespace)
  then show ?case by simp
next
  case (6 name shared_dict fv st namespace key v rest)
  from "6.prems"(3) have nv: "node_at t (p2 @ [key]) = Some v" and dv: "distinct_keys v"
    and bv: "bad_types v = []"
    and rest: "\<forall>kv\<in>set rest. node_at t (p2 @ [fst kv]) = Some (snd kv) \<and> distinct_keys (snd kv)
        \<and> bad_types (snd kv) = []"
    by auto
  have ns: "namespace @ [key] = name # (p2 @ [key])" using "6.prems"(2) by simp
  obtain r1 st1 where
    r1: "recursively_define_flags name shared_dict fv st (namespace @ [key]) v = (r1, st1)"
    by (cases "recursively_define_flags name shared_dict fv st (namespace @ [key]) v")
  show ?case
  proof (cases r1)
    case (Inl e1)
    with r1 "6.prems"(5) have "e1 = e2" by simp
    with "6.IH"(1)[OF "6.prems"(1) ns nv dv "6.prems"(4) bv r1[unfolded Inl]]
    show ?thesis by (auto simp del: default_errors.simps(3) simp: default_errors_Cons)
  next
    case (Inr u)
    with r1 "6.prems"(5) have r2: "define_items name shared_dict fv st1 namespace rest = (Inl e2, st3)"
      by simp
    from r1 Inr have r1': "recursively_define_flags name shared_dict fv st (namespace @ [key]) v
        = (Inr (), st1)" by simp
    from define_inv(1)[OF "6.prems"(1) ns nv dv "6.prems"(4) r1']
    have i1: "installed fresh st1 fv name shared_dict t (S2 \<union> {(p2 @ [key]) @ q | q. q \<in> leaves v})
      \<and> unshared st1 shared_dict (S2 \<union> {(p2 @ [key]) @ q | q. q \<in> leaves v})" .
    from "6.IH"(2)[OF r1'[symmetric] refl i1 "6.prems"(2) rest "6.prems"(4) r2]
    show ?thesis by (auto simp del: default_errors.simps(3) simp: default_errors_Cons)
  qed
qed

text \<open>\<open>define_flags\<close> raises only the \<open>TypeError\<close> of \<open>_extract_defaults\<close>,
  what the registration raised, or what a parser raised on a default.\<close>

lemma define_flags_errors:
  assumes d: "distinct_keys (DDict m)"
    and run: "define_flags st0 name m fv = (Inl e, st')"
  shows "(bad_types (DDict m) \<noteq> [] \<and> e = TypeError (extract_message (hd (bad_types (DDict m)))))
    \<or> registration_error e \<or> e \<in> set (default_errors (DDict m))"
proof (cases "bad_types (DDict m) = []")
  case False
  with extract_bad_types(1)[of m "heap st0"] run show ?thesis
    by (simp add: define_flags_def del: extract_defaults.simps bad_types.simps)
next
  case True
  with extract_bad_types(1)[of m "heap st0"] obtain root h' where
    ex: "extract_defaults (heap st0) m = Inr (root, h')" by blast
  with run have items: "define_items name root fv (st0\<lparr>heap := h'\<rparr>) [name] m = (Inl e, st')"
    by (auto simp: define_flags_def simp del: extract_defaults.simps
        split: sum.splits prod.splits)
  from extract_built(1)[OF d ex] have "built h' (Ref root) (DDict m) (length (heap st0))"
    by blast
  then have "tree_ok h' (Ref root) (DDict m)" by (simp add: built_def)
  then have i0: "installed fresh (st0\<lparr>heap := h'\<rparr>) fv name root (DDict m) {}
      \<and> unshared (st0\<lparr>heap := h'\<rparr>) root {}"
    by (simp add: installed_def unshared_empty)
  from d have dm: "distinct (map fst m)"
    and sub: "\<forall>kv\<in>set m. distinct_keys (snd kv)" by (auto simp: list_all_iff)
  have nodes: "\<forall>kv\<in>set m. node_at (DDict m) ([] @ [fst kv]) = Some (snd kv)
      \<and> distinct_keys (snd kv) \<and> bad_types (snd kv) = []"
  proof
    fix kv assume kv: "kv \<in> set m"
    with dm have "map_of m (fst kv) = Some (snd kv)" by (cases kv) simp
    with sub kv True
    show "node_at (DDict m) ([] @ [fst kv]) = Some (snd kv) \<and> distinct_keys (snd kv)
        \<and> bad_types (snd kv) = []"
      by simp
  qed
  from define_errors(2)[OF i0 refl nodes _ items] show ?thesis by simp
qed

text \<open>
  Claim C9. For every leaf flag that \<open>define_flags\<close> registered, the descent of
  the write-through cannot fail: the root name is a key of the flag's own
  one-entry dictionary and leads to the shared dictionary, every further
  intermediate segment is a key of a nested dictionary, the loop makes one lookup
  for each segment but the last, and \<open>_update_shared_dict\<close> returns for every
  value. The write-through that the constructor of a leaf flag runs cannot fail
  either: when \<open>define_flags\<close> raises, the exception is the \<open>TypeError\<close> of
  \<open>_extract_defaults\<close>, an exception of the registration of a flag (a name
  that is taken, is empty or has a space), or what the parser of a leaf raised
  on its default, and never one of the descent.
\<close>

theorem write_through_cannot_fail:
  assumes "distinct_keys (DDict m)"
  shows "(define_flags st0 name m fv = (Inr root, st1)
          \<and> (\<forall>x\<in>set ops. op_name x \<in> set (leaf_names name m))
          \<and> run_ops st1 fv ops = (r, st)
          \<and> p \<in> set (leaf_paths (DDict m)) \<longrightarrow>
          (\<exists>f a. (registries st fv (join SEPARATOR (name # p)) = Some (ItemFlag f)
                   \<or> registries st fv (join SEPARATOR (name # p)) = Some (MultiFlag f))
            \<and> f_namespace f = name # p
            \<and> subscript (heap st) (Ref (f_shared_dict f)) name = Inr (Ref root)
            \<and> descend (heap st) (Ref (f_shared_dict f)) (butlast (f_namespace f)) = Inr (Ref a)
            \<and> a < length (heap st)
            \<and> lookups (heap st) (Ref (f_shared_dict f)) (butlast (f_namespace f))
                = length (f_namespace f) - 1
            \<and> (\<forall>v. \<exists>h'. update_shared_dict (heap st) (f_shared_dict f) (f_namespace f) v
                  = Inr h')))
    \<and> (define_flags s name m fv = (Inl e, s') \<longrightarrow>
          (bad_types (DDict m) \<noteq> []
             \<and> e = TypeError (extract_message (hd (bad_types (DDict m)))))
          \<or> registration_error e
          \<or> e \<in> set (default_errors (DDict m)))"
proof -
  have registered: "\<exists>f a. (registries st fv (join SEPARATOR (name # p)) = Some (ItemFlag f)
             \<or> registries st fv (join SEPARATOR (name # p)) = Some (MultiFlag f))
      \<and> f_namespace f = name # p
      \<and> subscript (heap st) (Ref (f_shared_dict f)) name = Inr (Ref root)
      \<and> descend (heap st) (Ref (f_shared_dict f)) (butlast (f_namespace f)) = Inr (Ref a)
      \<and> a < length (heap st)
      \<and> lookups (heap st) (Ref (f_shared_dict f)) (butlast (f_namespace f))
          = length (f_namespace f) - 1
      \<and> (\<forall>v. \<exists>h'. update_shared_dict (heap st) (f_shared_dict f) (f_namespace f) v = Inr h')"
    if run: "define_flags st0 name m fv = (Inr root, st1)"
      "\<forall>x\<in>set ops. op_name x \<in> set (leaf_names name m)"
      "run_ops st1 fv ops = (r, st)"
      and leaf: "p \<in> set (leaf_paths (DDict m))"
  proof -
    from reachable_inv[OF assms run]
    have i: "installed any_flag st fv name root (DDict m) (leaves (DDict m))" .
    then have ok: "tree_ok (heap st) (Ref root) (DDict m)" by (simp add: installed_def)
    from leaf have "p \<in> leaves (DDict m)"
      unfolding leaf_paths_leaves[OF assms] .
    from inv_leaf_ok[OF i this] have "leaf_ok any_flag st fv name root (DDict m) p" .
    from leaf_ok_facts[OF ok _ this] obtain f a where
      f: "registries st fv (join SEPARATOR (name # p)) = Some (ItemFlag f)
               \<or> registries st fv (join SEPARATOR (name # p)) = Some (MultiFlag f)"
        "f_namespace f = name # p"
        "subscript (heap st) (Ref (f_shared_dict f)) name = Inr (Ref root)"
        "descend (heap st) (Ref (f_shared_dict f)) (butlast (f_namespace f)) = Inr (Ref a)"
        "a < length (heap st)"
        "\<forall>v. \<exists>h'. update_shared_dict (heap st) (f_shared_dict f) (f_namespace f) v = Inr h'"
      by auto
    from lookups_descend[OF f(4)]
    have "lookups (heap st) (Ref (f_shared_dict f)) (butlast (f_namespace f))
            = length (f_namespace f) - 1" by simp
    with f show ?thesis by blast
  qed
  have raised: "(bad_types (DDict m) \<noteq> []
             \<and> e = TypeError (extract_message (hd (bad_types (DDict m)))))
          \<or> registration_error e
          \<or> e \<in> set (default_errors (DDict m))"
    if "define_flags s name m fv = (Inl e, s')"
    by (rule define_flags_errors[OF assms that])
  from registered raised show ?thesis by blast
qed

theorem write_through_cannot_fail_witness:
  "define_flags init_state ''image_settings'' image_settings FLAGS = (Inr 0, image_state)
   \<and> (\<exists>f a. (registries (snd (run_ops image_state FLAGS [Override ''image_settings.sizes.height'' (PStr ''10''), Assign ''image_settings.mode'' (PStr ''crop'')])) FLAGS
                 ''image_settings.sizes.height'' = Some (ItemFlag f)
             \<or> registries (snd (run_ops image_state FLAGS [Override ''image_settings.sizes.height'' (PStr ''10''), Assign ''image_settings.mode'' (PStr ''crop'')])) FLAGS
                 ''image_settings.sizes.height'' = Some (MultiFlag f))
      \<and> f_namespace f = [''image_settings'', ''sizes'', ''height'']
      \<and> subscript (heap (snd (run_ops image_state FLAGS [Override ''image_settings.sizes.height'' (PStr ''10''), Assign ''image_settings.mode'' (PStr ''crop'')]))) (Ref (f_shared_dict f))
           ''image_settings'' = Inr (Ref 0)
      \<and> descend (heap (snd (run_ops image_state FLAGS [Override ''image_settings.sizes.height'' (PStr ''10''), Assign ''image_settings.mode'' (PStr ''crop'')]))) (Ref (f_shared_dict f))
           (butlast (f_namespace f)) = Inr (Ref a)
      \<and> a < length (heap (snd (run_ops image_state FLAGS [Override ''image_settings.sizes.height'' (PStr ''10''), Assign ''image_settings.mode'' (PStr ''crop'')])))
      \<and> lookups (heap (snd (run_ops image_state FLAGS [Override ''image_settings.sizes.height'' (PStr ''10''), Assign ''image_settings.mode'' (PStr ''crop'')]))) (Ref (f_shared_dict f))
           (butlast (f_namespace f)) = length (f_namespace f) - 1
      \<and> (\<forall>v. \<exists>h'. update_shared_dict (heap (snd (run_ops image_state FLAGS [Override ''image_settings.sizes.height'' (PStr ''10''), Assign ''image_settings.mode'' (PStr ''crop'')])))
                  (f_shared_dict f) (f_namespace f) v = Inr h'))
   \<and> fst (define_flags image_state ''image_settings'' image_settings FLAGS)
       = Inl (DuplicateFlagError ''image_settings.mode'')
   \<and> bad_types (DDict image_settings) = []
   \<and> default_errors (DDict image_settings) = []"
proof -
  have h1: "distinct_keys (DDict image_settings)" by (simp add: image_settings_def)
  have h2: "define_flags init_state ''image_settings'' image_settings FLAGS = (Inr 0, image_state)"
    by (simp add: image_state_def prod_eq_iff eval_defs)
  have h3: "\<forall>x\<in>set [Override ''image_settings.sizes.height'' (PStr ''10''), Assign ''image_settings.mode'' (PStr ''crop'')].
      op_name x \<in> set (leaf_names ''image_settings'' image_settings)"
    by (simp add: leaf_names_def image_settings_def SEPARATOR_def)
  have h4: "run_ops image_state FLAGS [Override ''image_settings.sizes.height'' (PStr ''10''), Assign ''image_settings.mode'' (PStr ''crop'')]
      = (fst (run_ops image_state FLAGS [Override ''image_settings.sizes.height'' (PStr ''10''), Assign ''image_settings.mode'' (PStr ''crop'')]), (snd (run_ops image_state FLAGS [Override ''image_settings.sizes.height'' (PStr ''10''), Assign ''image_settings.mode'' (PStr ''crop'')])))"
    by simp
  have h5: "[''sizes'', ''height''] \<in> set (leaf_paths (DDict image_settings))"
    by (simp add: image_settings_def)
  have h6: "fst (define_flags image_state ''image_settings'' image_settings FLAGS)
       = Inl (DuplicateFlagError ''image_settings.mode'')"
    by (simp add: image_state_def eval_defs)
  then have h7: "define_flags image_state ''image_settings'' image_settings FLAGS
       = (Inl (DuplicateFlagError ''image_settings.mode''),
          snd (define_flags image_state ''image_settings'' image_settings FLAGS))"
    by (simp add: prod_eq_iff)
  have h8: "bad_types (DDict image_settings) = []
    \<and> default_errors (DDict image_settings) = []"
    by (simp add: image_settings_def eval_defs)
  from write_through_cannot_fail[OF h1, of init_state "''image_settings''" FLAGS 0 image_state
      "[Override ''image_settings.sizes.height'' (PStr ''10''), Assign ''image_settings.mode'' (PStr ''crop'')]" "fst (run_ops image_state FLAGS [Override ''image_settings.sizes.height'' (PStr ''10''), Assign ''image_settings.mode'' (PStr ''crop'')])" "(snd (run_ops image_state FLAGS [Override ''image_settings.sizes.height'' (PStr ''10''), Assign ''image_settings.mode'' (PStr ''crop'')]))" "[''sizes'', ''height'']"
      image_state "DuplicateFlagError ''image_settings.mode''"
      "snd (define_flags image_state ''image_settings'' image_settings FLAGS)"]
    h2 h3 h4 h5 h6 h7 h8
  show ?thesis
    by (simp add: SEPARATOR_def)
qed




text \<open>
  Claim C5. Two successive overrides of a single-valued leaf leave the value
  parsed from the second argument at the leaf's path: the last one wins. Two
  successive overrides of a repeatable leaf leave one list at its path, which
  ends with the values parsed from the first argument followed by those parsed
  from the second; on a flag that was not present on the command line before (as
  right after its definition) the list holds these values only, and otherwise it
  begins with the list that the path held before. The flag and the path hold the
  same object.
\<close>

theorem repeated_override:
  assumes "distinct_keys (DDict m)"
    and "define_flags st0 name m fv = (Inr root, st1)"
    and "\<forall>x\<in>set ops. op_name x \<in> set (leaf_names name m)"
    and "run_ops st1 fv ops = (r, st)"
    and "p \<in> set (leaf_paths (DDict m))"
    and "flag_parse st fv (join SEPARATOR (name # p)) arg1 = (Inr (), sa)"
    and "flag_parse sa fv (join SEPARATOR (name # p)) arg2 = (Inr (), sb)"
  shows "(\<forall>it. node_at (DDict m) p = Some (DItem it) \<longrightarrow>
            (\<exists>v x. Flag__parse (parser it) arg2 = Inr v
               \<and> descend (heap sb) (Ref root) p = Inr x
               \<and> holder_value sb (fv, join SEPARATOR (name # p)) = Some x
               \<and> read_value (lists sb) x = Some v
               \<and> value_at sb root p = Some v))
    \<and> (\<forall>it. node_at (DDict m) p = Some (DMultiItem it) \<longrightarrow>
            (\<exists>f vs1 vs2 old x. registries st fv (join SEPARATOR (name # p)) = Some (MultiFlag f)
               \<and> (ops = [] \<longrightarrow> f_present f = 0)
               \<and> MultiFlag__parse (parser it) arg1 = Inr vs1
               \<and> MultiFlag__parse (parser it) arg2 = Inr vs2
               \<and> (if f_present f = 0 then old = []
                   else value_at st root p = Some (PList old))
               \<and> descend (heap sb) (Ref root) p = Inr x
               \<and> holder_value sb (fv, join SEPARATOR (name # p)) = Some x
               \<and> read_value (lists sb) x = Some (PList (old @ vs1 @ vs2))
               \<and> value_at sb root p = Some (PList (old @ vs1 @ vs2))))"
proof -
  let ?n = "join SEPARATOR (name # p)"
  let ?t = "DDict m"
  from reachable_inv[OF assms(1-4)]
  have i: "installed any_flag st fv name root ?t (leaves ?t)" .
  have eq: "set (leaf_paths ?t) = leaves ?t" by (rule leaf_paths_leaves[OF assms(1)])
  from assms(5) have p: "p \<in> leaves ?t" unfolding eq .
  have nl: "\<not> is_leaf ?t" by simp
  have ia: "installed any_flag sa fv name root ?t (leaves ?t)"
    by (rule apply_op_inv[OF i nl p, of "Override ?n arg1"]) (use assms(6) in simp_all)
  from flag_parse_leaf[OF i nl p assms(6)] obtain f f1 it1 mk1 where
    reg: "registries st fv ?n = Some (mk1 f)"
    and sa: "sa = register (st\<lparr>heap := heap sa, lists := lists sa\<rparr>) fv ?n (mk1 f1)"
    and k1: "node_at ?t p = Some (DItem it1) \<and> mk1 = ItemFlag
       \<and> (case Flag__parse (parser it1) arg1 of
             Inl e \<Rightarrow> Inr () = Inl e \<and> f1 = f \<and> heap sa = heap st \<and> lists sa = lists st
           | Inr v \<Rightarrow> (Inr () :: error + unit) = Inr () \<and> read_value (lists sa) (f_value f1) = Some v
                \<and> f_present f1 = f_present f + 1)
     \<or> node_at ?t p = Some (DMultiItem it1) \<and> mk1 = MultiFlag
       \<and> (case MultiFlag__parse (parser it1) arg1 of
             Inl e \<Rightarrow> Inr () = Inl e \<and> f1 = f \<and> heap sa = heap st \<and> lists sa = lists st
           | Inr vs \<Rightarrow>
               (if f_present f = 0
                then (Inr () :: error + unit) = Inr () \<and> read_value (lists sa) (f_value f1) = Some (PList vs)
                   \<and> f_present f1 = f_present f + length vs
                else (case read_value (lists st) (f_value f) of
                        Some (PList old) \<Rightarrow>
                          (Inr () :: error + unit) = Inr () \<and> read_value (lists sa) (f_value f1) = Some (PList (old @ vs))
                          \<and> f_present f1 = f_present f + length vs
                      | _ \<Rightarrow> Inr () = Inl (AttributeError ''extend'') \<and> f1 = f
                          \<and> heap sa = heap st \<and> lists sa = lists st)))" .
  from flag_parse_leaf[OF ia nl p assms(7)] obtain g f2 it2 mk2 where
    rega: "registries sa fv ?n = Some (mk2 g)"
    and sb: "sb = register (sa\<lparr>heap := heap sb, lists := lists sb\<rparr>) fv ?n (mk2 f2)"
    and step2: "flag_step root ?t p (heap sa) g (heap sb) f2"
    and k2: "node_at ?t p = Some (DItem it2) \<and> mk2 = ItemFlag
       \<and> (case Flag__parse (parser it2) arg2 of
             Inl e \<Rightarrow> Inr () = Inl e \<and> f2 = g \<and> heap sb = heap sa \<and> lists sb = lists sa
           | Inr v \<Rightarrow> (Inr () :: error + unit) = Inr () \<and> read_value (lists sb) (f_value f2) = Some v
                \<and> f_present f2 = f_present g + 1)
     \<or> node_at ?t p = Some (DMultiItem it2) \<and> mk2 = MultiFlag
       \<and> (case MultiFlag__parse (parser it2) arg2 of
             Inl e \<Rightarrow> Inr () = Inl e \<and> f2 = g \<and> heap sb = heap sa \<and> lists sb = lists sa
           | Inr vs \<Rightarrow>
               (if f_present g = 0
                then (Inr () :: error + unit) = Inr () \<and> read_value (lists sb) (f_value f2) = Some (PList vs)
                   \<and> f_present f2 = f_present g + length vs
                else (case read_value (lists sa) (f_value g) of
                        Some (PList old) \<Rightarrow>
                          (Inr () :: error + unit) = Inr () \<and> read_value (lists sb) (f_value f2) = Some (PList (old @ vs))
                          \<and> f_present f2 = f_present g + length vs
                      | _ \<Rightarrow> Inr () = Inl (AttributeError ''extend'') \<and> f2 = g
                          \<and> heap sb = heap sa \<and> lists sb = lists sa)))" .
  from k1 have mk1: "mk1 = ItemFlag \<or> mk1 = MultiFlag" by blast
  from k2 have mk2: "mk2 = ItemFlag \<or> mk2 = MultiFlag" by blast
  have "registries sa fv ?n = Some (mk1 f1)" by (subst sa) (simp add: register_def)
  with rega mk1 mk2 have gf: "g = f1" and mm: "mk2 = mk1" by auto
  have regb: "registries sb fv ?n = Some (mk2 f2)" by (subst sb) (simp add: register_def)
  with mk2 have hv: "holder_value sb (fv, ?n) = Some (f_value f2)"
    by (auto simp: holder_value_def)
  from step2 have d: "descend (heap sb) (Ref root) p = Inr (f_value f2)"
    by (simp add: flag_step_def)
  then have va: "value_at sb root p = read_value (lists sb) (f_value f2)"
    by (simp add: value_at_def)
  from inv_leaf_ok[OF i p] reg mk1 have cur: "descend (heap st) (Ref root) p = Inr (f_value f)"
    unfolding leaf_ok_def by auto
  then have v0: "value_at st root p = read_value (lists st) (f_value f)"
    by (simp add: value_at_def)
  have item: "\<exists>v x. Flag__parse (parser it) arg2 = Inr v
               \<and> descend (heap sb) (Ref root) p = Inr x
               \<and> holder_value sb (fv, ?n) = Some x
               \<and> read_value (lists sb) x = Some v
               \<and> value_at sb root p = Some v"
    if n: "node_at ?t p = Some (DItem it)" for it
  proof -
    from k2 n obtain v where "Flag__parse (parser it) arg2 = Inr v"
      "read_value (lists sb) (f_value f2) = Some v"
      by (auto split: sum.splits)
    with d hv va show ?thesis by auto
  qed
  have fresh0: "f_present f = 0" if "ops = []"
  proof -
    from that assms(4) have "st = st1" by simp
    with define_flags_inv[OF assms(1,2)] p
    have "leaf_ok fresh st fv name root ?t p" by (simp add: installed_def)
    with reg mk1 show ?thesis unfolding leaf_ok_def fresh_def by auto
  qed
  have multi: "\<exists>f vs1 vs2 old x. registries st fv ?n = Some (MultiFlag f)
               \<and> (ops = [] \<longrightarrow> f_present f = 0)
               \<and> MultiFlag__parse (parser it) arg1 = Inr vs1
               \<and> MultiFlag__parse (parser it) arg2 = Inr vs2
               \<and> (if f_present f = 0 then old = []
                   else value_at st root p = Some (PList old))
               \<and> descend (heap sb) (Ref root) p = Inr x
               \<and> holder_value sb (fv, ?n) = Some x
               \<and> read_value (lists sb) x = Some (PList (old @ vs1 @ vs2))
               \<and> value_at sb root p = Some (PList (old @ vs1 @ vs2))"
    if n: "node_at ?t p = Some (DMultiItem it)" for it
  proof -
    from k1 n reg have r0: "registries st fv ?n = Some (MultiFlag f)" by auto
    from k1 n obtain vs1 where p1: "MultiFlag__parse (parser it) arg1 = Inr vs1"
      by (auto split: sum.splits)
    from k2 n obtain vs2 where p2: "MultiFlag__parse (parser it) arg2 = Inr vs2"
      by (auto split: sum.splits)
    from k1 n p1 obtain old where
      old: "if f_present f = 0 then old = [] else read_value (lists st) (f_value f) = Some (PList old)"
      and a1: "read_value (lists sa) (f_value f1) = Some (PList (old @ vs1))"
      and c1: "f_present f1 = f_present f + length vs1"
      by (auto split: if_splits option.splits pyval.splits)
    have b: "read_value (lists sb) (f_value f2) = Some (PList (old @ vs1 @ vs2))"
    proof (cases "f_present f1 = 0")
      case True
      with c1 have "f_present f = 0" "vs1 = []" by simp_all
      with old have "old = []" by simp
      with k2 n p2 gf True \<open>vs1 = []\<close> show ?thesis by auto
    next
      case False
      with k2 n p2 gf a1 show ?thesis by auto
    qed
    from old v0 have o: "if f_present f = 0 then old = [] else value_at st root p = Some (PList old)"
      by simp
    from va b have vb: "value_at sb root p = Some (PList (old @ vs1 @ vs2))" by simp
    have f0: "ops = [] \<longrightarrow> f_present f = 0" using fresh0 by simp
    show ?thesis
      by (intro exI[of _ f] exI[of _ vs1] exI[of _ vs2] exI[of _ old] exI[of _ "f_value f2"] conjI)
        (rule r0 f0 p1 p2 o d hv b vb)+
  qed
  from item multi show ?thesis by blast
qed

theorem repeated_override_witness:
  "flag_parse image_state FLAGS ''image_settings.sizes.height'' (PStr ''10'')
     = (Inr (), height_state)
   \<and> flag_parse height_state FLAGS ''image_settings.sizes.height'' (PStr ''12'')
     = (Inr (), snd (flag_parse height_state FLAGS ''image_settings.sizes.height'' (PStr ''12'')))
   \<and> value_at (snd (flag_parse height_state FLAGS ''image_settings.sizes.height'' (PStr ''12'')))
       0 [''sizes'', ''height''] = Some (PInt 12)
   \<and> flag_parse image_state FLAGS ''image_settings.tags'' (PStr ''x'') = (Inr (), tags_once)
   \<and> flag_parse tags_once FLAGS ''image_settings.tags'' (PStr ''y'') = (Inr (), tags_twice)
   \<and> value_at tags_twice 0 [''tags''] = Some (PList [PStr ''x'', PStr ''y''])
   \<and> flag_parse tags_twice FLAGS ''image_settings.tags'' (PStr ''z'')
     = (Inr (), snd (flag_parse tags_twice FLAGS ''image_settings.tags'' (PStr ''z'')))
   \<and> value_at (snd (flag_parse tags_twice FLAGS ''image_settings.tags'' (PStr ''z''))) 0 [''tags'']
     = Some (PList [PStr ''x'', PStr ''y'', PStr ''z''])"
proof -
  have h1: "distinct_keys (DDict image_settings)" by (simp add: image_settings_def)
  have h2: "define_flags init_state ''image_settings'' image_settings FLAGS = (Inr 0, image_state)"
    by (simp add: image_state_def prod_eq_iff eval_defs)
  have h3: "\<forall>x\<in>set []. op_name x \<in> set (leaf_names ''image_settings'' image_settings)"
    by simp
  have h4: "run_ops image_state FLAGS [] = (Inr (), image_state)" by simp
  have h5: "[''sizes'', ''height''] \<in> set (leaf_paths (DDict image_settings))"
    by (simp add: image_settings_def)
  have h6: "flag_parse image_state FLAGS
      (join SEPARATOR [''image_settings'', ''sizes'', ''height'']) (PStr ''10'')
      = (Inr (), height_state)"
    by (simp add: height_state_def image_state_def prod_eq_iff eval_defs)
  have h7: "flag_parse height_state FLAGS
      (join SEPARATOR [''image_settings'', ''sizes'', ''height'']) (PStr ''12'')
      = (Inr (), snd (flag_parse height_state FLAGS ''image_settings.sizes.height'' (PStr ''12'')))"
    by (simp add: height_state_def image_state_def prod_eq_iff eval_defs)
  have g5: "[''tags''] \<in> set (leaf_paths (DDict image_settings))"
    by (simp add: image_settings_def)
  have g6: "flag_parse image_state FLAGS
      (join SEPARATOR [''image_settings'', ''tags'']) (PStr ''x'') = (Inr (), tags_once)"
    by (simp add: tags_once_def image_state_def prod_eq_iff eval_defs)
  have g7: "flag_parse tags_once FLAGS
      (join SEPARATOR [''image_settings'', ''tags'']) (PStr ''y'') = (Inr (), tags_twice)"
    by (simp add: tags_twice_def tags_once_def image_state_def prod_eq_iff eval_defs)
  have k3: "\<forall>x\<in>set [Override ''image_settings.tags'' (PStr ''x'')].
      op_name x \<in> set (leaf_names ''image_settings'' image_settings)"
    by (simp add: leaf_names_def image_settings_def SEPARATOR_def)
  have k4: "run_ops image_state FLAGS [Override ''image_settings.tags'' (PStr ''x'')]
      = (Inr (), tags_once)"
    by (simp add: tags_once_def image_state_def prod_eq_iff eval_defs)
  have k7: "flag_parse tags_twice FLAGS
      (join SEPARATOR [''image_settings'', ''tags'']) (PStr ''z'')
      = (Inr (), snd (flag_parse tags_twice FLAGS ''image_settings.tags'' (PStr ''z'')))"
    by (simp add: tags_twice_def tags_once_def image_state_def prod_eq_iff eval_defs)
  have v: "value_at (snd (flag_parse height_state FLAGS ''image_settings.sizes.height'' (PStr ''12'')))
       0 [''sizes'', ''height''] = Some (PInt 12)
     \<and> value_at tags_twice 0 [''tags''] = Some (PList [PStr ''x'', PStr ''y''])
     \<and> value_at (snd (flag_parse tags_twice FLAGS ''image_settings.tags'' (PStr ''z''))) 0 [''tags'']
       = Some (PList [PStr ''x'', PStr ''y'', PStr ''z''])"
    by (simp add: height_state_def tags_twice_def tags_once_def image_state_def eval_defs)
  from repeated_override[OF h1 h2 h3 h4 h5 h6 h7] repeated_override[OF h1 h2 h3 h4 g5 g6 g7]
    repeated_override[OF h1 h2 k3 k4 g5 g7 k7]
    h6 h7 g6 g7 k7 v
  show ?thesis by (simp add: SEPARATOR_def)
qed

lemma constructed_unique: "constructed x v \<Longrightarrow> constructed x w \<Longrightarrow> v = w"
  by (cases x) (auto split: if_splits sum.splits)

lemma tree_ok_child:
  assumes ok: "tree_ok h (Ref a) (DDict m)" and k: "map_of m k = Some v"
  shows "\<exists>e. map_of (h ! a) k = Some e \<and> tree_ok h e v \<and> subscript h (Ref a) k = Inr e"
proof -
  from tree_okD_dict[OF ok, of "[]" m] have a: "a < length h" "map fst (h ! a) = map fst m"
    by auto
  from map_of_keys[OF a(2) k] obtain e where e: "map_of (h ! a) k = Some e" by blast
  have sub: "subscript h (Ref a) k = Inr e" using a e by (simp add: subscript_Ref)
  have n: "node_at (DDict m) (k # p) = node_at v p" for p using k by simp
  have d: "descend h (Ref a) (k # p) = descend h e p" for p using sub by simp
  have "tree_ok h e v"
    unfolding tree_ok_def
  proof (intro conjI allI impI)
    fix p m'
    assume "node_at v p = Some (DDict m')"
    with tree_okD_dict[OF ok, of "k # p" m'] n d
    show "\<exists>a. descend h e p = Inr (Ref a) \<and> a < length h \<and> map fst (h ! a) = map fst m'"
      by simp
  next
    fix p x
    assume "node_at v p = Some x \<and> is_leaf x"
    with tree_okD_leaf[OF ok, of "k # p" x] n d
    show "\<exists>u. descend h e p = Inr u" by simp
  next
    fix p q m1 m2 b
    assume "node_at v p = Some (DDict m1) \<and> node_at v q = Some (DDict m2)
       \<and> descend h e p = Inr (Ref b) \<and> descend h e q = Inr (Ref b)"
    then have "node_at (DDict m) (k # p) = Some (DDict m1)"
      "node_at (DDict m) (k # q) = Some (DDict m2)"
      "descend h (Ref a) (k # p) = Inr (Ref b)" "descend h (Ref a) (k # q) = Inr (Ref b)"
      using n d by simp_all
    from tree_okD_inj[OF ok this] show "p = q" by simp
  qed
  with e sub show ?thesis by blast
qed

lemma tree_ok_same_shape:
  "tree_ok h e t \<Longrightarrow> distinct_keys t \<Longrightarrow> bad_types t = [] \<Longrightarrow>
     (\<forall>p x a. node_at t p = Some x \<and> is_leaf x \<longrightarrow> descend h e p \<noteq> Inr (Ref a)) \<Longrightarrow>
     same_shape h e t"
proof (induction t arbitrary: e)
  case (DItem it)
  from tree_okD_leaf[OF DItem.prems(1), of "[]" "DItem it"] DItem.prems(4)[rule_format, of "[]" "DItem it"]
  show ?case by (cases e) auto
next
  case (DMultiItem it)
  from tree_okD_leaf[OF DMultiItem.prems(1), of "[]" "DMultiItem it"]
    DMultiItem.prems(4)[rule_format, of "[]" "DMultiItem it"]
  show ?case by (cases e) auto
next
  case (DDict m)
  from tree_okD_dict[OF DDict.prems(1), of "[]" m] obtain a where
    a: "e = Ref a" "a < length h" "map fst (h ! a) = map fst m" by auto
  from DDict.prems(2) have dm: "distinct (map fst m)"
    and sub: "\<forall>kv\<in>set m. distinct_keys (snd kv)" by (auto simp: list_all_iff)
  have "case map_of (h ! a) (fst kv) of None \<Rightarrow> False | Some e \<Rightarrow> same_shape h e (snd kv)"
    if kv: "kv \<in> set m" for kv
  proof -
    from dm kv have mk: "map_of m (fst kv) = Some (snd kv)" by (cases kv) simp
    from tree_ok_child[OF DDict.prems(1)[unfolded a(1)] mk] obtain e' where
      e': "map_of (h ! a) (fst kv) = Some e'" "tree_ok h e' (snd kv)"
      "subscript h (Ref a) (fst kv) = Inr e'" by blast
    from DDict.prems(3) kv have bt: "bad_types (snd kv) = []" by auto
    from sub kv have dk: "distinct_keys (snd kv)" by simp
    have lv: "\<forall>p x b. node_at (snd kv) p = Some x \<and> is_leaf x \<longrightarrow> descend h e' p \<noteq> Inr (Ref b)"
    proof (intro allI impI)
      fix p x b
      assume "node_at (snd kv) p = Some x \<and> is_leaf x"
      with mk have "node_at (DDict m) (fst kv # p) = Some x \<and> is_leaf x" by simp
      with DDict.prems(4) have "descend h e (fst kv # p) \<noteq> Inr (Ref b)" by blast
      with a(1) e'(3) show "descend h e' p \<noteq> Inr (Ref b)" by simp
    qed
    have "snd kv \<in> Basic_BNFs.snds kv" by (cases kv) simp
    from DDict.IH[OF kv this e'(2) dk bt lv]
    have "same_shape h e' (snd kv)" .
    with e'(1) show ?thesis by simp
  qed
  with a show ?case by (simp add: list_all_iff)
next
  case (DOther x)
  then show ?case by simp
qed

lemma define_flags_well_typed:
  assumes "define_flags st0 name m fv = (Inr root, st1)"
  shows "bad_types (DDict m) = []"
proof (rule ccontr)
  assume "bad_types (DDict m) \<noteq> []"
  with extract_bad_types(1)[of m "heap st0"]
  have "extract_defaults (heap st0) m = Inl (TypeError (extract_message (hd (bad_types (DDict m)))))"
    by blast
  with assms show False by (simp add: define_flags_def del: extract_defaults.simps)
qed

lemma define_flags_reflects:
  assumes d: "distinct_keys (DDict m)"
    and df: "define_flags st0 name m fv = (Inr root, st1)"
  shows "same_shape (heap st1) (Ref root) (DDict m) \<and> holds_values st1 root m"
proof -
  from define_flags_inv[OF d df]
  have i: "installed fresh st1 fv name root (DDict m) (leaves (DDict m))" by simp
  then have ok: "tree_ok (heap st1) (Ref root) (DDict m)" by (simp add: installed_def)
  have leaf: "\<exists>v. node_at (DDict m) p = Some x \<and> constructed x v
      \<and> value_at st1 root p = Some v"
    if "node_at (DDict m) p = Some x" "is_leaf x" for p x
  proof -
    from that have "p \<in> leaves (DDict m)" by (auto simp: leaves_def)
    from inv_leaf_ok[OF i this] obtain y f where
      y: "node_at (DDict m) p = Some y"
      and dd: "descend (heap st1) (Ref root) p = Inr (f_value f)"
      and fr: "fresh y (lists st1) f"
      unfolding leaf_ok_def by blast
    from fr obtain v where "constructed y v" "read_value (lists st1) (f_value f) = Some v"
      by (auto simp: fresh_def)
    with y dd that(1) show ?thesis by (auto simp: value_at_def)
  qed
  have nr: "\<forall>p x a. node_at (DDict m) p = Some x \<and> is_leaf x \<longrightarrow>
      descend (heap st1) (Ref root) p \<noteq> Inr (Ref a)"
  proof (intro allI impI)
    fix p x a
    assume "node_at (DDict m) p = Some x \<and> is_leaf x"
    with leaf[of p x] obtain v where "value_at st1 root p = Some v" by blast
    then show "descend (heap st1) (Ref root) p \<noteq> Inr (Ref a)"
      by (auto simp: value_at_def read_value_def)
  qed
  from tree_ok_same_shape[OF ok d define_flags_well_typed[OF df] nr]
  have sh: "same_shape (heap st1) (Ref root) (DDict m)" .
  have eq: "set (leaf_paths (DDict m)) = leaves (DDict m)" by (rule leaf_paths_leaves[OF d])
  have "case node_at (DDict m) p of
          None \<Rightarrow> False
        | Some x \<Rightarrow>
            (case value_at st1 root p of
               Some v \<Rightarrow> constructed x v \<and> (stable_default x \<longrightarrow> v = default_of x)
             | None \<Rightarrow> False)"
    if "p \<in> leaves (DDict m)" for p
  proof -
    from that obtain x where x: "node_at (DDict m) p = Some x" "is_leaf x"
      by (auto simp: leaves_def)
    from leaf[OF x] obtain v where c: "constructed x v" and v: "value_at st1 root p = Some v"
      by blast
    have "stable_default x \<longrightarrow> v = default_of x"
      using constructed_unique[OF c] by (auto simp: stable_default_def)
    with x c v show ?thesis by simp
  qed
  then have "holds_values st1 root m" unfolding holds_values_def eq by blast
  with sh show ?thesis by simp
qed

lemma value_at_cong:
  "heap st2 = heap st1 \<Longrightarrow> lists st2 = lists st1 \<Longrightarrow> value_at st2 root p = value_at st1 root p"
  unfolding value_at_def by (simp cong: sum.case_cong)

lemma holds_values_cong:
  assumes "heap st2 = heap st1" "lists st2 = lists st1"
  shows "holds_values st2 root m = holds_values st1 root m"
  unfolding holds_values_def value_at_cong[OF assms] ..

lemma DEFINE_dict_success:
  assumes "DEFINE_dict st0 args m = (Inr holder, st2)"
  shows "\<exists>name fv root st1. define_flags st0 name m fv = (Inr root, st1)
      \<and> heap st2 = heap st1 \<and> lists st2 = lists st1
      \<and> holder_value st2 holder = Some (Ref root)"
proof -
  from assms have
    "\<exists>name fv root st1 d. define_flags st0 name m fv = (Inr root, st1)
       \<and> DictFlag_init root name (Ref root) = Inr d
       \<and> DEFINE_flag st1 fv (DictFlag d) = (Inr (), st2) \<and> holder = (fv, name)"
    unfolding DEFINE_dict_def
    by (auto split: if_splits arg.splits sum.splits prod.splits; blast)
  then obtain name fv root st1 d where
    df: "define_flags st0 name m fv = (Inr root, st1)"
    and di: "DictFlag_init root name (Ref root) = Inr d"
    and rg: "DEFINE_flag st1 fv (DictFlag d) = (Inr (), st2)" and h: "holder = (fv, name)"
    by blast
  from di have d: "d_value d = Ref root" "d_name d = name"
    by (auto simp: DictFlag_init_def DictFlag__parse_def split: if_splits)
  from rg d have "heap st2 = heap st1" "lists st2 = lists st1"
    "holder_value st2 (fv, name) = Some (Ref root)"
    by (auto simp: DEFINE_flag_def register_def holder_value_def split: if_splits)
  with df h show ?thesis by blast
qed

text \<open>
  Claim C3, as the code has it. For a definition whose dicts have distinct keys,
  the dictionary that \<open>define_flags\<close> returns, which is the value of the holder
  that \<open>DEFINE_dict\<close> returns, has the keys and the nesting of the definition,
  and before any override every leaf position holds the value its flag took at
  construction: the descriptor's default parsed once more by the descriptor's
  parser. That is the descriptor's default when the parser maps the default to
  itself.
\<close>

theorem returned_mapping_mirrors_definition:
  assumes "distinct_keys (DDict m)"
  shows "(define_flags st0 name m fv = (Inr root, st1) \<longrightarrow>
            same_shape (heap st1) (Ref root) (DDict m) \<and> holds_values st1 root m)
    \<and> (DEFINE_dict st0 args m = (Inr holder, st2) \<longrightarrow>
          (\<exists>shared. holder_value st2 holder = Some (Ref shared)
             \<and> same_shape (heap st2) (Ref shared) (DDict m)
             \<and> holds_values st2 shared m))"
proof -
  have a: "same_shape (heap st1) (Ref root) (DDict m) \<and> holds_values st1 root m"
    if "define_flags st0 name m fv = (Inr root, st1)"
    by (rule define_flags_reflects[OF assms that])
  have b: "\<exists>shared. holder_value st2 holder = Some (Ref shared)
             \<and> same_shape (heap st2) (Ref shared) (DDict m)
             \<and> holds_values st2 shared m"
    if "DEFINE_dict st0 args m = (Inr holder, st2)"
  proof -
    from DEFINE_dict_success[OF that] obtain name' fv' r s where
      df: "define_flags st0 name' m fv' = (Inr r, s)" and h: "heap st2 = heap s"
      and l: "lists st2 = lists s"
      and hv: "holder_value st2 holder = Some (Ref r)" by blast
    from define_flags_reflects[OF assms df] h hv holds_values_cong[OF h l, of r m]
    show ?thesis by auto
  qed
  from a b show ?thesis by blast
qed

theorem returned_mapping_mirrors_definition_witness:
  "distinct_keys (DDict image_settings)
   \<and> define_flags init_state ''image_settings'' image_settings FLAGS = (Inr 0, image_state)
   \<and> same_shape (heap image_state) (Ref 0) (DDict image_settings)
   \<and> holds_values image_state 0 image_settings
   \<and> value_at image_state 0 [''mode''] = Some (PStr ''pad'')
   \<and> value_at image_state 0 [''sizes'', ''width''] = Some (PInt 5)
   \<and> value_at image_state 0 [''sizes'', ''height''] = Some (PInt 7)
   \<and> value_at image_state 0 [''tags''] = Some (PList [PStr ''a''])
   \<and> DEFINE_dict init_state [ArgStr ''image_settings''] image_settings
        = (Inr (FLAGS, ''image_settings''), image_dict_state)
   \<and> holder_value image_dict_state (FLAGS, ''image_settings'') = Some (Ref 0)
   \<and> same_shape (heap image_dict_state) (Ref 0) (DDict image_settings)
   \<and> holds_values image_dict_state 0 image_settings"
proof -
  have h1: "distinct_keys (DDict image_settings)" by (simp add: image_settings_def)
  have h2: "define_flags init_state ''image_settings'' image_settings FLAGS = (Inr 0, image_state)"
    by (simp add: image_state_def prod_eq_iff eval_defs)
  have h3: "DEFINE_dict init_state [ArgStr ''image_settings''] image_settings
        = (Inr (FLAGS, ''image_settings''), image_dict_state)"
    by (simp add: image_dict_state_def prod_eq_iff eval_defs)
  have hv: "holder_value image_dict_state (FLAGS, ''image_settings'') = Some (Ref 0)"
    by (simp add: image_dict_state_def eval_defs)
  have v: "value_at image_state 0 [''mode''] = Some (PStr ''pad'')
   \<and> value_at image_state 0 [''sizes'', ''width''] = Some (PInt 5)
   \<and> value_at image_state 0 [''sizes'', ''height''] = Some (PInt 7)
   \<and> value_at image_state 0 [''tags''] = Some (PList [PStr ''a''])"
    by (simp add: image_state_def eval_defs)
  from returned_mapping_mirrors_definition[OF h1, of init_state "''image_settings''" FLAGS 0
      image_state "[ArgStr ''image_settings'']" "(FLAGS, ''image_settings'')" image_dict_state]
    h1 h2 h3 hv v
  show ?thesis by simp
qed

text \<open>
  The descriptor \<open>Item(1, ''Help.'', parser)\<close> with a parser that counts up has the
  default 2; after \<open>define_flags\<close> the returned dictionary holds 3 at its leaf.
\<close>

theorem returned_mapping_default_counterexample:
  "Item_init (PInt 1) ''Help.'' successor_parse = Inr counter_item
   \<and> distinct_keys (DDict [(''n'', DItem counter_item)])
   \<and> fst (define_flags init_state ''counter'' [(''n'', DItem counter_item)] FLAGS) = Inr 0
   \<and> default counter_item = PInt 2
   \<and> descend (heap (snd (define_flags init_state ''counter'' [(''n'', DItem counter_item)] FLAGS)))
        (Ref 0) [''n''] = Inr (Val (PInt 3))
   \<and> value_at (snd (define_flags init_state ''counter'' [(''n'', DItem counter_item)] FLAGS))
        0 [''n''] = Some (PInt 3)"
  by (simp add: Item_init_def counter_item_def eval_defs)

end
